theory Spec2Isabelle
  imports Main "HOL-Library.Word" "HOL-Library.Sublist"
begin

section \<open>TextWriter: writing a text character by character into a page element\<close>

text \<open>
  The development embeds the class \<^verbatim>\<open>TextWriter\<close> of \<^verbatim>\<open>src/TextWriter.ts\<close>.
  The class keeps four fields and talks to three parts of its platform: numbers
  (the delays are multiplied and tested against zero), the page (elements are looked
  up, extended and emptied) and the scheduler (every \<^verbatim>\<open>await\<close> hands control back).
  Each part is modelled below, then the methods follow the source line by line.
\<close>

subsection \<open>Numbers\<close>

text \<open>
  A \<^verbatim>\<open>number\<close> of the language is a binary64 value. \<open>Finite s m e\<close> stands for
  \<open>(-1)\<^sup>s \<times> m \<times> 2\<^sup>e\<close> (\<open>s\<close> is the sign bit, so both zeros exist),
  \<open>Infinity s\<close> for the two infinities. Only the value counts, a value may have
  several representations.
\<close>

datatype number = NaN | Infinity bool | Finite bool nat int

definition zero :: number where
  "zero = Finite False 0 0"

definition one :: number where
  "one = Finite False 1 0"

definition hundred :: number where
  "hundred = Finite False 100 0"

text \<open>The default \<^verbatim>\<open>0.4\<close> of \<^verbatim>\<open>writeJson\<close> is the binary64 value nearest to 2/5.\<close>

definition two_fifths :: number where
  "two_fifths = Finite False 7205759403792794 (- 54)"

fun binary_digits :: "nat \<Rightarrow> nat" where
  "binary_digits n = (if n = 0 then 0 else Suc (binary_digits (n div 2)))"

declare binary_digits.simps [simp del]

text \<open>Dropping the last \<open>k\<close> binary digits of \<open>m\<close>, to the nearest, ties to even.\<close>

definition round_half_even :: "nat \<Rightarrow> nat \<Rightarrow> nat" where
  "round_half_even m k =
     (let d = m div 2 ^ k; r = m mod 2 ^ k; half = 2 ^ (k - 1)
      in if half < r \<or> (r = half \<and> odd d) then d + 1 else d)"

text \<open>
  \<open>round_binary64 s m e\<close> is the binary64 value nearest to \<open>(-1)\<^sup>s \<times> m \<times> 2\<^sup>e\<close>:
  53 significant digits, no exponent below \<open>-1074\<close> (smaller results lose digits and
  may become zero), infinity from \<open>2\<^sup>1\<^sup>0\<^sup>2\<^sup>4\<close> on.
\<close>

definition round_binary64 :: "bool \<Rightarrow> nat \<Rightarrow> int \<Rightarrow> number" where
  "round_binary64 s m e =
     (let q = max (- 1074) (e + int (binary_digits m) - 53);
          m' = (if q \<le> e then m * 2 ^ nat (e - q) else round_half_even m (nat (q - e)))
      in if m' \<noteq> 0 \<and> (971 < q \<or> (q = 971 \<and> m' = 2 ^ 53)) then Infinity s
         else Finite s m' q)"

text \<open>The operator \<^verbatim>\<open>*\<close>.\<close>

fun multiply :: "number \<Rightarrow> number \<Rightarrow> number" where
  "multiply NaN y = NaN"
| "multiply x NaN = NaN"
| "multiply (Infinity s) (Infinity s') = Infinity (s \<noteq> s')"
| "multiply (Infinity s) (Finite s' m e) = (if m = 0 then NaN else Infinity (s \<noteq> s'))"
| "multiply (Finite s m e) (Infinity s') = (if m = 0 then NaN else Infinity (s \<noteq> s'))"
| "multiply (Finite s m e) (Finite s' m' e') = round_binary64 (s \<noteq> s') (m * m') (e + e')"

text \<open>The comparison \<^verbatim>\<open>x == 0\<close>: true of both zeros, false of \<^verbatim>\<open>NaN\<close>.\<close>

fun equals_zero :: "number \<Rightarrow> bool" where
  "equals_zero (Finite s m e) = (m = 0)"
| "equals_zero x = False"

text \<open>A number in a condition, \<^verbatim>\<open>if(x)\<close>: false of the zeros and of \<^verbatim>\<open>NaN\<close>.\<close>

fun truthy :: "number \<Rightarrow> bool" where
  "truthy NaN = False"
| "truthy (Infinity s) = True"
| "truthy (Finite s m e) = (m \<noteq> 0)"

text \<open>The comparison \<^verbatim>\<open>x > 0\<close>.\<close>

fun greater_zero :: "number \<Rightarrow> bool" where
  "greater_zero NaN = False"
| "greater_zero (Infinity s) = (\<not> s)"
| "greater_zero (Finite s m e) = (\<not> s \<and> m \<noteq> 0)"

subsection \<open>The page\<close>

text \<open>
  A string of the language is a list of 16-bit code units: \<^verbatim>\<open>length\<close> counts them
  and \<^verbatim>\<open>charAt\<close> returns one. Tag names and ids are names, kept as strings of the
  logic; the empty id stands for an element without id.

  The page is a forest of nodes, an element is referred to by its path: the
  positions to follow from the top. The model covers what the writer does with
  the page: it looks an element up by id or by selector, it appends the parse of a
  markup string or a text to the content of an element, it empties an element.
  The page is an HTML document that is not in quirks mode: ids are compared as
  they are written.
\<close>

type_synonym code_unit = "16 word"

type_synonym jsstring = "code_unit list"

datatype node = TextNode jsstring | Element string string "node list"

type_synonym path = "nat list"

fun node_at :: "node list \<Rightarrow> path \<Rightarrow> node option" where
  "node_at ns [] = None"
| "node_at ns (i # p) =
     (if i < length ns then
        (if p = [] then Some (ns ! i)
         else (case ns ! i of
                 TextNode s \<Rightarrow> None
               | Element t d kids \<Rightarrow> node_at kids p))
      else None)"

text \<open>\<open>modify_at p f\<close> replaces the children \<open>kids\<close> of the element at \<open>p\<close> by \<open>f kids\<close>.\<close>

fun modify_at :: "path \<Rightarrow> (node list \<Rightarrow> node list) \<Rightarrow> node list \<Rightarrow> node list option" where
  "modify_at [] f ns = None"
| "modify_at (i # p) f ns =
     (if i < length ns then
        (case ns ! i of
           TextNode s \<Rightarrow> None
         | Element t d kids \<Rightarrow>
             (if p = [] then Some (ns[i := Element t d (f kids)])
              else map_option (\<lambda>kids'. ns[i := Element t d kids']) (modify_at p f kids)))
      else None)"

fun has_tag :: "string \<Rightarrow> node list \<Rightarrow> bool" where
  "has_tag t [] = False"
| "has_tag t (TextNode s # ns) = has_tag t ns"
| "has_tag t (Element tg d kids # ns) = (tg = t \<or> has_tag t ns)"

fun shift :: "path \<Rightarrow> path" where
  "shift [] = []"
| "shift (i # p) = Suc i # p"

text \<open>
  \<^verbatim>\<open>document.getElementById(i)\<close>: the first element with id \<open>i\<close> in document order
  (an element before its children, the children from left to right).
\<close>

fun find_id :: "string \<Rightarrow> node list \<Rightarrow> path option" where
  "find_id i [] = None"
| "find_id i (TextNode s # rest) = map_option shift (find_id i rest)"
| "find_id i (Element tg d kids # rest) =
     (if d = i then Some [0]
      else (case find_id i kids of
              Some p \<Rightarrow> Some (0 # p)
            | None \<Rightarrow> map_option shift (find_id i rest)))"

definition getElementById :: "node list \<Rightarrow> string \<Rightarrow> path option" where
  "getElementById doc i = (if i = [] then None else find_id i doc)"

text \<open>
  The selectors of the source end in \<^verbatim>\<open>t:last-of-type\<close>: an element with tag \<open>t\<close>
  that no later sibling with tag \<open>t\<close> follows. \<open>select_first anc t ns\<close> is the first
  such element of the forest \<open>ns\<close> in document order; with \<open>anc = Some c\<close> the element
  must moreover lie below an element with id \<open>c\<close> (the selector
  \<^verbatim>\<open>#c t:last-of-type\<close>), and the demand is met once the search has gone below one.
\<close>

fun select_first :: "string option \<Rightarrow> string \<Rightarrow> node list \<Rightarrow> path option" where
  "select_first anc t [] = None"
| "select_first anc t (TextNode s # rest) = map_option shift (select_first anc t rest)"
| "select_first anc t (Element tg d kids # rest) =
     (if anc = None \<and> tg = t \<and> \<not> has_tag t rest then Some [0]
      else (case select_first (if anc = Some d then None else anc) t kids of
              Some p \<Rightarrow> Some (0 # p)
            | None \<Rightarrow> map_option shift (select_first anc t rest)))"

text \<open>
  The writer hands two markup strings to the parser of the page, \<^verbatim>\<open><t></t>\<close> for a
  wrapper tag \<open>t\<close> and \<^verbatim>\<open><span>c</span>\<close> for a character \<open>c\<close>, and one selector to
  its selector engine, \<^verbatim>\<open>#i t:last-of-type\<close> for the id \<open>i\<close> of the container. All
  three are built by putting \<open>t\<close>, \<open>c\<close> and \<open>i\<close> into a string as they are, and what
  the platform makes of the string depends on them. The model below gives the
  reading the writer intends: \<^verbatim>\<open><t></t>\<close> is one empty element \<open>t\<close>,
  \<^verbatim>\<open><span>c</span>\<close> is one \<^verbatim>\<open>span\<close> around \<open>c\<close>, the selector asks for an element
  \<open>t\<close> below an element with id \<open>i\<close>. The platform reads the strings so under the
  following conditions, and the theorems about what a write leaves on the page
  assume them.

  \<^item> The element that receives a markup, and the tag \<open>t\<close>, are among the tags of
    \<open>plain_tag\<close>. For each of them the parser begins in its ordinary state inside
    the element, opens one element at \<^verbatim>\<open><t>\<close> and closes it at \<^verbatim>\<open></t>\<close>. The list
    leaves out whatever the parser treats in a way of its own: \<^verbatim>\<open><tr></tr>\<close>
    inside a \<^verbatim>\<open>div\<close> gives nothing, \<^verbatim>\<open><br></br>\<close> gives two elements, inside a
    \<^verbatim>\<open>textarea\<close>, a \<^verbatim>\<open>script\<close> or a \<^verbatim>\<open>style\<close> every markup is text, a tag written
    with capitals gives an element with the name in small letters.
  \<^item> The id \<open>i\<close> is a name as \<open>css_name\<close> has it: a letter or an underscore, then
    letters, digits, hyphens and underscores. Then \<^verbatim>\<open>#i\<close> selects by the id \<open>i\<close>.
    With another id the string may select something else (\<^verbatim>\<open>#a.b\<close> asks for the id
    \<^verbatim>\<open>a\<close> and the class \<^verbatim>\<open>b\<close>) or be no selector at all (\<^verbatim>\<open>#1box\<close>, for which the
    call throws).

  The character \<open>c\<close> is any code unit: what the parser does with it inside a plain
  element is in \<open>span_of\<close> below.
\<close>

definition plain_tag :: "string \<Rightarrow> bool" where
  "plain_tag t =
     (t \<in> set [''div'', ''p'', ''span'', ''pre'', ''section'', ''article'', ''aside'',
               ''header'', ''footer'', ''main'', ''nav'', ''blockquote'',
               ''h1'', ''h2'', ''h3'', ''h4'', ''h5'', ''h6''])"

definition name_start :: "char \<Rightarrow> bool" where
  "name_start c = (c \<in> set ''abcdefghijklmnopqrstuvwxyzABCDEFGHIJKLMNOPQRSTUVWXYZ_'')"

definition name_char :: "char \<Rightarrow> bool" where
  "name_char c = (name_start c \<or> c \<in> set ''0123456789-'')"

fun css_name :: "string \<Rightarrow> bool" where
  "css_name [] = False"
| "css_name (c # cs) = (name_start c \<and> list_all name_char cs)"

subsection \<open>The writer, the world around it, and what a call leaves behind\<close>

record TextWriter =
  textDestinationContainer :: "path option"
  animationDelay :: number
  htmlWrapperTag :: "string option"
  scrollToTextEnabled :: bool

text \<open>
  The trace lists, in order, every \<^verbatim>\<open>await\<close> a call has passed and every change it
  has made to the page. An \<^verbatim>\<open>await\<close> always hands control back to the caller before
  the method goes on, whether it waits for a timer or for a value that is there
  already, so each one is an event of its own, named after its place in the source.
\<close>

datatype event =
    Lead_pause number
  | Step_pause number
  | Step_ready
  | Skip_pause number
  | Awaited_write
  | Inserted_html path "node list"
  | Inserted_text path jsstring
  | Cleared path
  | Scrolled path

record world =
  writer :: TextWriter
  document :: "node list"
  trace :: "event list"

datatype js_error = TypeError | SyntaxError | DOMException

text \<open>A call returns a value or throws; either way it leaves a world behind.\<close>

datatype 'a result = Returned 'a world | Thrown js_error world

fun world_of :: "'a result \<Rightarrow> world" where
  "world_of (Returned x w) = w"
| "world_of (Thrown e w) = w"

fun and_then :: "'a result \<Rightarrow> ('a \<Rightarrow> world \<Rightarrow> 'b result) \<Rightarrow> 'b result" where
  "and_then (Returned x w) f = f x w"
| "and_then (Thrown e w) f = Thrown e w"

definition record_event :: "event \<Rightarrow> world \<Rightarrow> world" where
  "record_event e w = w\<lparr>trace := trace w @ [e]\<rparr>"

text \<open>
  The calls on an element. A reference that is \<^verbatim>\<open>null\<close>, or that denotes no element
  of the page, makes the call throw a \<^verbatim>\<open>TypeError\<close>.
\<close>

definition change_children ::
  "path option \<Rightarrow> (node list \<Rightarrow> node list) \<Rightarrow> (path \<Rightarrow> event) \<Rightarrow> world \<Rightarrow> unit result" where
  "change_children target f ev w =
     (case target of
        None \<Rightarrow> Thrown TypeError w
      | Some p \<Rightarrow>
          (case modify_at p f (document w) of
             None \<Rightarrow> Thrown TypeError w
           | Some doc' \<Rightarrow> Returned () (record_event (ev p) (w\<lparr>document := doc'\<rparr>))))"

text \<open>
  \<^verbatim>\<open>target.insertAdjacentHTML('beforeend', markup)\<close> appends what the parser makes of
  the markup inside the target. The markup is given here by its parse; for the
  markups of the writer that is the parse in a plain element, see above.
\<close>

definition insertAdjacentHTML :: "path option \<Rightarrow> node list \<Rightarrow> world \<Rightarrow> unit result" where
  "insertAdjacentHTML target markup w =
     change_children target (\<lambda>kids. kids @ markup) (\<lambda>p. Inserted_html p markup) w"

text \<open>\<^verbatim>\<open>target.insertAdjacentText('beforeend', text)\<close>: a new text node, no parsing.\<close>

definition insertAdjacentText :: "path option \<Rightarrow> jsstring \<Rightarrow> world \<Rightarrow> unit result" where
  "insertAdjacentText target text w =
     change_children target (\<lambda>kids. kids @ [TextNode text]) (\<lambda>p. Inserted_text p text) w"

text \<open>\<^verbatim>\<open>target.innerHTML = ''\<close>.\<close>

definition clear_innerHTML :: "path option \<Rightarrow> world \<Rightarrow> unit result" where
  "clear_innerHTML target w = change_children target (\<lambda>kids. []) Cleared w"

text \<open>\<^verbatim>\<open>target.scrollIntoView()\<close> leaves the content of the page as it is.\<close>

definition scrollIntoView :: "path option \<Rightarrow> world \<Rightarrow> unit result" where
  "scrollIntoView target w =
     (case target of
        None \<Rightarrow> Thrown TypeError w
      | Some p \<Rightarrow>
          (case node_at (document w) p of
             Some (Element t d kids) \<Rightarrow> Returned () (record_event (Scrolled p) w)
           | _ \<Rightarrow> Thrown TypeError w))"

text \<open>\<^verbatim>\<open>element.id\<close>.\<close>

definition id_of :: "path option \<Rightarrow> world \<Rightarrow> string result" where
  "id_of target w =
     (case target of
        None \<Rightarrow> Thrown TypeError w
      | Some p \<Rightarrow>
          (case node_at (document w) p of
             Some (Element t d kids) \<Rightarrow> Returned d w
           | _ \<Rightarrow> Thrown TypeError w))"

text \<open>
  \<^verbatim>\<open>document.querySelector('#' + c + ' ' + t + ':last-of-type')\<close>. With an empty \<open>c\<close> the
  string is no selector and the call throws a \<^verbatim>\<open>DOMException\<close>. Otherwise the
  result is the one for a name \<open>c\<close> and a plain tag \<open>t\<close>, see above.
\<close>

definition document_querySelector :: "string \<Rightarrow> string \<Rightarrow> world \<Rightarrow> path option result" where
  "document_querySelector c t w =
     (if c = [] then Thrown DOMException w
      else Returned (select_first (Some c) t (document w)) w)"

text \<open>\<^verbatim>\<open>element.querySelector(t + ':last-of-type')\<close>: the search below the element.\<close>

definition element_querySelector :: "path option \<Rightarrow> string \<Rightarrow> world \<Rightarrow> path option result" where
  "element_querySelector target t w =
     (case target of
        None \<Rightarrow> Thrown TypeError w
      | Some p \<Rightarrow>
          (case node_at (document w) p of
             Some (Element tg d kids) \<Rightarrow> Returned (map_option (\<lambda>q. p @ q) (select_first None t kids)) w
           | _ \<Rightarrow> Thrown TypeError w))"

subsection \<open>The class\<close>

text \<open>
  The setters. \<^verbatim>\<open>setDestination\<close> keeps what \<^verbatim>\<open>document.getElementById\<close> returns, an
  element or \<^verbatim>\<open>null\<close>.
\<close>

definition setDestination :: "string \<Rightarrow> world \<Rightarrow> world" where
  "setDestination destinationId w =
     w\<lparr>writer := (writer w)\<lparr>textDestinationContainer := getElementById (document w) destinationId\<rparr>\<rparr>"

definition setAnimationDelay :: "number \<Rightarrow> world \<Rightarrow> world" where
  "setAnimationDelay delay w = w\<lparr>writer := (writer w)\<lparr>animationDelay := delay\<rparr>\<rparr>"

definition setHtmlWrapperTag :: "string option \<Rightarrow> world \<Rightarrow> world" where
  "setHtmlWrapperTag tag w = w\<lparr>writer := (writer w)\<lparr>htmlWrapperTag := tag\<rparr>\<rparr>"

text \<open>
  The field initialisers and the constructor: a writer for the element with id
  \<open>destinationId\<close> of the page \<open>doc\<close>, with nothing done so far.
\<close>

definition new_TextWriter :: "string \<Rightarrow> bool \<Rightarrow> node list \<Rightarrow> world" where
  "new_TextWriter destinationId scroll doc =
     (let w = setDestination destinationId
                \<lparr>writer = \<lparr>textDestinationContainer = None, animationDelay = hundred,
                            htmlWrapperTag = None, scrollToTextEnabled = False\<rparr>,
                 document = doc, trace = []\<rparr>
      in w\<lparr>writer := (writer w)\<lparr>scrollToTextEnabled := scroll\<rparr>\<rparr>)"

text \<open>
  \<^verbatim>\<open>getTargetElement\<close>. The condition \<^verbatim>\<open>if(this.htmlWrapperTag)\<close> fails for
  \<^verbatim>\<open>null\<close> and for the empty string.
\<close>

definition getTargetElement :: "world \<Rightarrow> path option result" where
  "getTargetElement w =
     (case htmlWrapperTag (writer w) of
        None \<Rightarrow> Returned (textDestinationContainer (writer w)) w
      | Some t \<Rightarrow>
          (if t = [] then Returned (textDestinationContainer (writer w)) w
           else and_then (insertAdjacentHTML (textDestinationContainer (writer w)) [Element t [] []] w)
                  (\<lambda>u w1. and_then (id_of (textDestinationContainer (writer w1)) w1)
                     (\<lambda>c w2. document_querySelector c t w2))))"

text \<open>
  \<^verbatim>\<open>sleepAnimationDelay\<close> returns \<^verbatim>\<open>true\<close> when the product is zero, and else a
  promise that a timer resolves. The callers \<^verbatim>\<open>await\<close> what it returns.
\<close>

datatype sleep = Skipped | Timer number

definition sleepAnimationDelay :: "number \<Rightarrow> world \<Rightarrow> sleep" where
  "sleepAnimationDelay multiplier w =
     (if equals_zero (multiply (animationDelay (writer w)) multiplier) then Skipped
      else Timer (multiply (animationDelay (writer w)) multiplier))"

fun await_step :: "sleep \<Rightarrow> world \<Rightarrow> world" where
  "await_step Skipped w = record_event Step_ready w"
| "await_step (Timer d) w = record_event (Step_pause d) w"

definition scrollToText :: "world \<Rightarrow> unit result" where
  "scrollToText w =
     (if scrollToTextEnabled (writer w) then scrollIntoView (textDestinationContainer (writer w)) w
      else Returned () w)"

text \<open>
  \<^verbatim>\<open>writeHtmlChar\<close> appends the markup \<^verbatim>\<open><span>c</span>\<close>. Inside a plain element the
  parser makes one \<^verbatim>\<open>span\<close> of it, with the character as its text. Two characters
  do not arrive as they are: the parser drops NUL, so that the \<^verbatim>\<open>span\<close> is empty, and
  it reads a carriage return as a line feed. Every other code unit is kept, also
  \<^verbatim>\<open><\<close> and \<^verbatim>\<open>&\<close>, which begin neither a tag nor a character reference when
  \<^verbatim>\<open></span>\<close> follows.
\<close>

definition span_of :: "code_unit \<Rightarrow> node" where
  "span_of c =
     Element ''span'' [] (if c = 0 then [] else [TextNode [if c = 13 then 10 else c]])"

definition writeHtmlChar :: "code_unit \<Rightarrow> path option \<Rightarrow> world \<Rightarrow> unit result" where
  "writeHtmlChar c target w =
     and_then (insertAdjacentHTML target [span_of c] w) (\<lambda>u w1. scrollToText w1)"

definition writeChar :: "code_unit \<Rightarrow> path option \<Rightarrow> world \<Rightarrow> unit result" where
  "writeChar c target w =
     and_then (insertAdjacentText target [c] w) (\<lambda>u w1. scrollToText w1)"

text \<open>The loop of \<^verbatim>\<open>write\<close>, over the characters that are still to be written.\<close>

fun write_chars :: "jsstring \<Rightarrow> number \<Rightarrow> path option \<Rightarrow> world \<Rightarrow> unit result" where
  "write_chars [] multiplier target w = Returned () w"
| "write_chars (c # cs) multiplier target w =
     and_then (writeHtmlChar c target (await_step (sleepAnimationDelay multiplier w) w))
       (\<lambda>u w1. write_chars cs multiplier target w1)"

text \<open>The same loop of \<^verbatim>\<open>writeJson\<close>, with \<^verbatim>\<open>writeChar\<close>.\<close>

fun writeJson_chars :: "jsstring \<Rightarrow> number \<Rightarrow> path option \<Rightarrow> world \<Rightarrow> unit result" where
  "writeJson_chars [] multiplier target w = Returned () w"
| "writeJson_chars (c # cs) multiplier target w =
     and_then (writeChar c target (await_step (sleepAnimationDelay multiplier w) w))
       (\<lambda>u w1. writeJson_chars cs multiplier target w1)"

text \<open>
  \<^verbatim>\<open>write\<close>. Its text is a string or an array, the test is \<^verbatim>\<open>typeof toWrite == 'object'\<close>;
  \<^verbatim>\<open>for(var x in toWrite)\<close> visits the positions of an array in ascending order.
  The call of \<^verbatim>\<open>write\<close> in the loop is awaited, and a call that throws ends the loop.
\<close>

datatype content = Scalar jsstring | Sequence "content list"

definition lead_delay :: "number \<Rightarrow> world \<Rightarrow> world" where
  "lead_delay delay w = (if truthy delay then record_event (Lead_pause delay) w else w)"

fun "write" :: "content \<Rightarrow> number \<Rightarrow> number \<Rightarrow> bool \<Rightarrow> world \<Rightarrow> unit result"
  and write_each :: "content list \<Rightarrow> number \<Rightarrow> bool \<Rightarrow> world \<Rightarrow> unit result" where
  "write (Sequence items) multiplier delay replace w =
     write_each items multiplier replace (lead_delay delay w)"
| "write (Scalar s) multiplier delay replace w =
     and_then (getTargetElement (lead_delay delay w))
       (\<lambda>target w1.
          and_then (if replace then clear_innerHTML target w1 else Returned () w1)
            (\<lambda>u w2. write_chars s multiplier target w2))"
| "write_each [] multiplier replace w = Returned () w"
| "write_each (x # xs) multiplier replace w =
     and_then (write x multiplier zero replace w)
       (\<lambda>u w1. write_each xs multiplier replace (record_event Awaited_write w1))"

text \<open>
  \<^verbatim>\<open>writeJson\<close>. The text is a string, parsed first, or a value already.
  \<^verbatim>\<open>JSON.parse\<close> and \<^verbatim>\<open>JSON.stringify\<close> belong to the platform and are arguments
  here: \<open>parse\<close> gives no value where \<^verbatim>\<open>JSON.parse\<close> throws its \<^verbatim>\<open>SyntaxError\<close>,
  and \<open>stringify v n\<close> stands for \<^verbatim>\<open>JSON.stringify(v, null, n)\<close>.
\<close>

datatype 'j json_text = Textual jsstring | Structured 'j

definition writeJson ::
  "(jsstring \<Rightarrow> 'j option) \<Rightarrow> ('j \<Rightarrow> nat \<Rightarrow> jsstring) \<Rightarrow> 'j json_text \<Rightarrow> number \<Rightarrow> world \<Rightarrow> unit result" where
  "writeJson parse stringify text multiplier w =
     (case (case text of Textual s \<Rightarrow> parse s | Structured v \<Rightarrow> Some v) of
        None \<Rightarrow> Thrown SyntaxError w
      | Some v \<Rightarrow>
          and_then (insertAdjacentHTML (textDestinationContainer (writer w)) [Element ''pre'' [] []] w)
            (\<lambda>u w1. and_then (element_querySelector (textDestinationContainer (writer w1)) ''pre'' w1)
               (\<lambda>target w2. writeJson_chars (stringify v 2) multiplier target w2)))"

text \<open>
  \<^verbatim>\<open>skipAnimation\<close> runs in two parts, before and after its \<^verbatim>\<open>await\<close>: the first
  returns the delay it has read and the world in which other calls run meanwhile.
\<close>

definition skipAnimation_begin :: "world \<Rightarrow> number \<times> world" where
  "skipAnimation_begin w =
     (animationDelay (writer w),
      record_event (Skip_pause (animationDelay (writer w)))
        (w\<lparr>writer := (writer w)\<lparr>animationDelay := zero\<rparr>\<rparr>))"

definition skipAnimation_resume :: "number \<Rightarrow> world \<Rightarrow> world" where
  "skipAnimation_resume delay w = w\<lparr>writer := (writer w)\<lparr>animationDelay := delay\<rparr>\<rparr>"

definition skipAnimation :: "world \<Rightarrow> unit result" where
  "skipAnimation w =
     (case skipAnimation_begin w of (delay, w1) \<Rightarrow> Returned () (skipAnimation_resume delay w1))"

subsection \<open>Notions for the properties\<close>

text \<open>
  The ids of the elements passed on the way to \<open>p\<close>. The writer is resolved when
  its container denotes an element of the page with a plain tag, whose id is a name
  and is the id of none of the elements around it (as it is for every element
  \<^verbatim>\<open>getElementById\<close> returns), and when its wrapper tag, if one is set, is plain.
  These are the writers for which the platform reads the markups and the selector
  as the model does.
\<close>

fun ancestor_ids :: "node list \<Rightarrow> path \<Rightarrow> string list" where
  "ancestor_ids ns [] = []"
| "ancestor_ids ns (i # p) =
     (if p \<noteq> [] \<and> i < length ns then
        (case ns ! i of
           TextNode s \<Rightarrow> []
         | Element t d kids \<Rightarrow> d # ancestor_ids kids p)
      else [])"

definition container_ok :: "node list \<Rightarrow> path \<Rightarrow> bool" where
  "container_ok doc p =
     (case node_at doc p of
        Some (Element t d kids) \<Rightarrow> plain_tag t \<and> css_name d \<and> d \<notin> set (ancestor_ids doc p)
      | _ \<Rightarrow> False)"

definition wrapper_ok :: "TextWriter \<Rightarrow> bool" where
  "wrapper_ok tw =
     (case htmlWrapperTag tw of
        None \<Rightarrow> True
      | Some t \<Rightarrow> t = [] \<or> plain_tag t)"

definition resolved :: "world \<Rightarrow> bool" where
  "resolved w =
     (wrapper_ok (writer w) \<and>
      (case textDestinationContainer (writer w) of
         None \<Rightarrow> False
       | Some p \<Rightarrow> container_ok (document w) p))"

text \<open>The children of the element at \<open>p\<close>; no list where \<open>p\<close> denotes no element.\<close>

definition children_at :: "node list \<Rightarrow> path \<Rightarrow> node list option" where
  "children_at doc p =
     (case node_at doc p of
        Some (Element t d kids) \<Rightarrow> Some kids
      | _ \<Rightarrow> None)"

text \<open>\<open>keeps doc doc'\<close>: every element of \<open>doc\<close> is in \<open>doc'\<close>, at its place.\<close>

definition keeps :: "node list \<Rightarrow> node list \<Rightarrow> bool" where
  "keeps doc doc' =
     (\<forall>r t d k. node_at doc r = Some (Element t d k) \<longrightarrow>
        (\<exists>k'. node_at doc' r = Some (Element t d k')) \<and> ancestor_ids doc' r = ancestor_ids doc r)"

text \<open>What a call adds to the trace of the world it starts in.\<close>

definition events_of :: "(world \<Rightarrow> 'a result) \<Rightarrow> world \<Rightarrow> event list" where
  "events_of call w = drop (length (trace w)) (trace (world_of (call w)))"

definition adds :: "(event \<Rightarrow> bool) \<Rightarrow> 'a result \<Rightarrow> world \<Rightarrow> bool" where
  "adds P r w = (\<exists>es. trace (world_of r) = trace w @ es \<and> list_all P es)"

text \<open>The events of the single steps of \<^verbatim>\<open>write\<close>, as they come in the source.\<close>

definition lead_events :: "number \<Rightarrow> event list" where
  "lead_events delay = (if truthy delay then [Lead_pause delay] else [])"

definition wrapper_events :: "TextWriter \<Rightarrow> event list" where
  "wrapper_events tw =
     (case (htmlWrapperTag tw, textDestinationContainer tw) of
        (Some t, Some p) \<Rightarrow> (if t = [] then [] else [Inserted_html p [Element t [] []]])
      | _ \<Rightarrow> [])"

definition await_event :: "TextWriter \<Rightarrow> number \<Rightarrow> event" where
  "await_event tw multiplier =
     (if equals_zero (multiply (animationDelay tw) multiplier) then Step_ready
      else Step_pause (multiply (animationDelay tw) multiplier))"

definition scroll_events :: "TextWriter \<Rightarrow> event list" where
  "scroll_events tw =
     (case textDestinationContainer tw of
        None \<Rightarrow> []
      | Some p \<Rightarrow> (if scrollToTextEnabled tw then [Scrolled p] else []))"

definition step_events :: "TextWriter \<Rightarrow> number \<Rightarrow> path \<Rightarrow> code_unit \<Rightarrow> event list" where
  "step_events tw multiplier target c =
     await_event tw multiplier # Inserted_html target [span_of c] # scroll_events tw"

text \<open>Kinds of events.\<close>

fun is_page_event :: "event \<Rightarrow> bool" where
  "is_page_event (Inserted_html p markup) = True"
| "is_page_event (Inserted_text p text) = True"
| "is_page_event (Cleared p) = True"
| "is_page_event (Scrolled p) = True"
| "is_page_event e = False"

fun is_unit :: "event \<Rightarrow> bool" where
  "is_unit (Inserted_html p markup) = True"
| "is_unit e = False"

fun is_cleared :: "event \<Rightarrow> bool" where
  "is_cleared (Cleared p) = True"
| "is_cleared e = False"

fun is_lead_pause :: "event \<Rightarrow> bool" where
  "is_lead_pause (Lead_pause d) = True"
| "is_lead_pause e = False"

fun is_step_pause :: "event \<Rightarrow> bool" where
  "is_step_pause (Step_pause d) = True"
| "is_step_pause e = False"

text \<open>
  \<open>after_ready es\<close>: every insertion of markup in \<open>es\<close> comes directly after an await
  of a value that is there already. \<open>ready_then\<close> goes through the events and
  remembers whether the one before was such an await.
\<close>

fun ready_then :: "bool \<Rightarrow> event list \<Rightarrow> bool" where
  "ready_then ready [] = True"
| "ready_then ready (e # es) = ((is_unit e \<longrightarrow> ready) \<and> ready_then (e = Step_ready) es)"

definition after_ready :: "event list \<Rightarrow> bool" where
  "after_ready es = ready_then False es"



text \<open>
  A write of a string without any \<^verbatim>\<open>await\<close> in its loop: the synchronous write the
  specification compares with. \<open>forget_ready\<close> drops from a trace the awaits of a value
  that is there already.
\<close>

fun write_chars_sync :: "jsstring \<Rightarrow> path option \<Rightarrow> world \<Rightarrow> unit result" where
  "write_chars_sync [] target w = Returned () w"
| "write_chars_sync (c # cs) target w =
     and_then (writeHtmlChar c target w) (\<lambda>u w1. write_chars_sync cs target w1)"

definition write_sync :: "jsstring \<Rightarrow> number \<Rightarrow> bool \<Rightarrow> world \<Rightarrow> unit result" where
  "write_sync s delay replace w =
     and_then (getTargetElement (lead_delay delay w))
       (\<lambda>target w1.
          and_then (if replace then clear_innerHTML target w1 else Returned () w1)
            (\<lambda>u w2. write_chars_sync s target w2))"

definition forget_ready_world :: "world \<Rightarrow> world" where
  "forget_ready_world w = w\<lparr>trace := filter (\<lambda>e. e \<noteq> Step_ready) (trace w)\<rparr>"

fun forget_ready :: "'a result \<Rightarrow> 'a result" where
  "forget_ready (Returned x w) = Returned x (forget_ready_world w)"
| "forget_ready (Thrown e w) = Thrown e (forget_ready_world w)"

subsection \<open>Pages and platform functions for the examples\<close>

text \<open>A page whose body holds the empty element \<^verbatim>\<open><div id="box">\<close>.\<close>

definition box_page :: "node list" where
  "box_page = [Element ''html'' [] [Element ''body'' [] [Element ''div'' ''box'' []]]]"

text \<open>The same page with a section \<^verbatim>\<open><div id="log">\<close> in the box.\<close>

definition log_page :: "node list" where
  "log_page =
     [Element ''html'' []
        [Element ''body'' []
           [Element ''div'' ''box'' [Element ''div'' ''log'' []]]]]"

text \<open>
  \<^verbatim>\<open>JSON.parse\<close> and \<^verbatim>\<open>JSON.stringify\<close> on the three literal names. On these
  \<^verbatim>\<open>JSON.stringify\<close> ignores the indentation; \<open>parse_literal\<close> reads no other text,
  which is what \<^verbatim>\<open>JSON.parse\<close> does with the texts of the examples.
\<close>

datatype literal = Lit_null | Lit_true | Lit_false

definition parse_literal :: "jsstring \<Rightarrow> literal option" where
  "parse_literal s =
     (if s = [110, 117, 108, 108] then Some Lit_null
      else if s = [116, 114, 117, 101] then Some Lit_true
      else if s = [102, 97, 108, 115, 101] then Some Lit_false
      else None)"

fun stringify_literal :: "literal \<Rightarrow> nat \<Rightarrow> jsstring" where
  "stringify_literal Lit_null indent = [110, 117, 108, 108]"
| "stringify_literal Lit_true indent = [116, 114, 117, 101]"
| "stringify_literal Lit_false indent = [102, 97, 108, 115, 101]"

section \<open>Properties\<close>

subsection \<open>The calls leave the configuration alone\<close>

lemma and_then_writer:
  assumes "writer (world_of r) = W"
    and "\<And>x w1. writer w1 = W \<Longrightarrow> writer (world_of (f x w1)) = W"
  shows "writer (world_of (and_then r f)) = W"
  using assms by (cases r) auto

lemma writer_record_event [simp]: "writer (record_event e w) = writer w"
  by (simp add: record_event_def)

lemma document_record_event [simp]: "document (record_event e w) = document w"
  by (simp add: record_event_def)

lemma trace_record_event [simp]: "trace (record_event e w) = trace w @ [e]"
  by (simp add: record_event_def)

lemma writer_change_children [simp]:
  "writer (world_of (change_children target f ev w)) = writer w"
  by (simp add: change_children_def split: option.splits)

lemma writer_scrollToText [simp]: "writer (world_of (scrollToText w)) = writer w"
  by (simp add: scrollToText_def scrollIntoView_def split: option.splits node.splits)

lemma writer_writeHtmlChar [simp]: "writer (world_of (writeHtmlChar c target w)) = writer w"
  unfolding writeHtmlChar_def insertAdjacentHTML_def
  by (rule and_then_writer) simp_all

lemma writer_writeChar [simp]: "writer (world_of (writeChar c target w)) = writer w"
  unfolding writeChar_def insertAdjacentText_def
  by (rule and_then_writer) simp_all

lemma writer_await_step [simp]: "writer (await_step sl w) = writer w"
  by (cases sl) simp_all

lemma document_await_step [simp]: "document (await_step sl w) = document w"
  by (cases sl) simp_all

lemma writer_write_chars [simp]: "writer (world_of (write_chars s m target w)) = writer w"
proof (induction s arbitrary: w)
  case Nil
  show ?case by simp
next
  case (Cons c cs)
  show ?case
    unfolding write_chars.simps
    by (rule and_then_writer) (simp_all add: Cons.IH)
qed

lemma writer_writeJson_chars [simp]:
  "writer (world_of (writeJson_chars s m target w)) = writer w"
proof (induction s arbitrary: w)
  case Nil
  show ?case by simp
next
  case (Cons c cs)
  show ?case
    unfolding writeJson_chars.simps
    by (rule and_then_writer) (simp_all add: Cons.IH)
qed

lemma writer_lead_delay [simp]: "writer (lead_delay d w) = writer w"
  by (simp add: lead_delay_def)

lemma document_lead_delay [simp]: "document (lead_delay d w) = document w"
  by (simp add: lead_delay_def)

lemma writer_getTargetElement [simp]: "writer (world_of (getTargetElement w)) = writer w"
proof (cases "htmlWrapperTag (writer w)")
  case None
  then show ?thesis by (simp add: getTargetElement_def)
next
  case (Some t)
  show ?thesis
  proof (cases "t = []")
    case True
    with Some show ?thesis by (simp add: getTargetElement_def)
  next
    case False
    have "writer (world_of (and_then
            (insertAdjacentHTML (textDestinationContainer (writer w)) [Element t [] []] w)
            (\<lambda>u w1. and_then (id_of (textDestinationContainer (writer w1)) w1)
               (\<lambda>c w2. document_querySelector c t w2)))) = writer w"
      apply (rule and_then_writer)
       apply (simp add: insertAdjacentHTML_def)
      apply (rule and_then_writer)
       apply (simp add: id_of_def split: option.splits node.splits)
      apply (simp add: document_querySelector_def)
      done
    with Some False show ?thesis by (simp add: getTargetElement_def)
  qed
qed

lemma writer_write:
  "writer (world_of (write c m d r w)) = writer w"
  "writer (world_of (write_each cs m r w)) = writer w"
proof (induction c m d r w and cs m r w rule: write_write_each.induct)
  case (1 items multiplier delay replace w)
  then show ?case by simp
next
  case (2 s multiplier delay replace w)
  show ?case
    unfolding "write.simps"
    apply (rule and_then_writer)
     apply simp
    apply (rule and_then_writer)
     apply (simp add: clear_innerHTML_def)
    apply simp
    done
next
  case (3 multiplier replace w)
  then show ?case by simp
next
  case (4 x xs multiplier replace w)
  show ?case
    unfolding write_each.simps
    apply (rule and_then_writer)
     apply (rule 4)
    apply (simp add: 4)
    done
qed

lemma writer_writeJson:
  "writer (world_of (writeJson parse stringify text m w)) = writer w"
proof (cases "case text of Textual s \<Rightarrow> parse s | Structured v \<Rightarrow> Some v")
  case None
  then show ?thesis by (simp add: writeJson_def)
next
  case (Some v)
  have "writer (world_of (and_then
          (insertAdjacentHTML (textDestinationContainer (writer w)) [Element ''pre'' [] []] w)
          (\<lambda>u w1. and_then (element_querySelector (textDestinationContainer (writer w1)) ''pre'' w1)
             (\<lambda>target w2. writeJson_chars (stringify v 2) m target w2)))) = writer w"
    apply (rule and_then_writer)
     apply (simp add: insertAdjacentHTML_def)
    apply (rule and_then_writer)
     apply (simp add: element_querySelector_def split: option.splits node.splits)
    apply simp
    done
  with Some show ?thesis by (simp add: writeJson_def)
qed

text \<open>
  C10. \<^verbatim>\<open>write\<close> and \<^verbatim>\<open>writeJson\<close> leave every field of the writer as it was, whatever
  they are given and whether they return or throw. \<^verbatim>\<open>skipAnimation\<close> changes the one
  field \<open>animationDelay\<close> while it waits and has put the old value back when it
  returns; it does not touch the page. Each setter changes its own field.
\<close>

theorem configuration_frame:
  "writer (world_of (write c m d r w)) = writer w
   \<and> writer (world_of (writeJson parse stringify text m w)) = writer w
   \<and> writer (snd (skipAnimation_begin w)) = (writer w)\<lparr>animationDelay := zero\<rparr>
   \<and> writer (world_of (skipAnimation w)) = writer w
   \<and> document (world_of (skipAnimation w)) = document w
   \<and> writer (setAnimationDelay d' w) = (writer w)\<lparr>animationDelay := d'\<rparr>
   \<and> writer (setHtmlWrapperTag tag w) = (writer w)\<lparr>htmlWrapperTag := tag\<rparr>
   \<and> writer (setDestination i w) =
       (writer w)\<lparr>textDestinationContainer := getElementById (document w) i\<rparr>"
  by (simp add: writer_write writer_writeJson skipAnimation_begin_def skipAnimation_def
      skipAnimation_resume_def setAnimationDelay_def setHtmlWrapperTag_def setDestination_def)

subsection \<open>Skipping the animation\<close>

lemma multiply_zero_finite: "equals_zero (multiply zero (Finite s m e))"
  by (simp add: zero_def round_binary64_def round_half_even_def Let_def)

text \<open>
  C7. \<^verbatim>\<open>skipAnimation\<close>, called while the delay is \<open>D\<close>, sets the delay to zero and
  waits once, for \<open>D\<close>. In the world it leaves while it waits the delay is zero, so
  the pause check of a step finds a zero product there (for every finite
  multiplier) and sets no timer. When the call returns the delay is \<open>D\<close> again, and
  the one await is all it has added to the trace.
\<close>

theorem skipAnimation_restores:
  "fst (skipAnimation_begin w) = animationDelay (writer w)
   \<and> animationDelay (writer (snd (skipAnimation_begin w))) = zero
   \<and> trace (snd (skipAnimation_begin w)) = trace w @ [Skip_pause (animationDelay (writer w))]
   \<and> sleepAnimationDelay (Finite s m e) (snd (skipAnimation_begin w)) = Skipped
   \<and> skipAnimation w =
       Returned () (skipAnimation_resume (fst (skipAnimation_begin w)) (snd (skipAnimation_begin w)))
   \<and> animationDelay (writer (world_of (skipAnimation w))) = animationDelay (writer w)
   \<and> events_of skipAnimation w = [Skip_pause (animationDelay (writer w))]"
  by (simp add: skipAnimation_begin_def skipAnimation_def skipAnimation_resume_def
      sleepAnimationDelay_def multiply_zero_finite events_of_def)

subsection \<open>A text that does not parse\<close>

text \<open>
  C3. When the text given to \<^verbatim>\<open>writeJson\<close> does not parse, the call throws the
  \<^verbatim>\<open>SyntaxError\<close> and leaves the world as it found it: nothing is appended to the
  page, nothing is added to the trace.
\<close>

theorem writeJson_malformed_text:
  "parse s = None \<Longrightarrow> writeJson parse stringify (Textual s) m w = Thrown SyntaxError w"
  by (simp add: writeJson_def)

theorem writeJson_malformed_text_witness:
  "parse_literal [123] = None
   \<and> writeJson parse_literal stringify_literal (Textual [123]) two_fifths
        (new_TextWriter ''box'' False box_page)
       = Thrown SyntaxError (new_TextWriter ''box'' False box_page)"
proof -
  have malformed: "parse_literal [123] = None"
    by (simp add: parse_literal_def)
  from malformed
    writeJson_malformed_text [of parse_literal "[123]" stringify_literal two_fifths
      "new_TextWriter ''box'' False box_page"]
  show ?thesis
    by simp
qed

subsection \<open>Elements and paths\<close>

lemma node_at_prefix:
  "prefix ks ks' \<Longrightarrow> node_at ks r = Some n \<Longrightarrow> node_at ks' r = Some n"
  by (cases r) (auto simp: prefix_def nth_append split: if_splits)

lemma ancestor_ids_prefix:
  "prefix ks ks' \<Longrightarrow> node_at ks r = Some n \<Longrightarrow> ancestor_ids ks' r = ancestor_ids ks r"
  by (cases r) (auto simp: prefix_def nth_append split: if_splits)

lemma modify_at_valid:
  "node_at ns p = Some (Element t d k) \<Longrightarrow>
   \<exists>ns'. modify_at p f ns = Some ns' \<and> node_at ns' p = Some (Element t d (f k))"
proof (induction p arbitrary: ns)
  case Nil
  then show ?case by simp
next
  case (Cons i p)
  show ?case
  proof (cases "p = []")
    case True
    with Cons.prems show ?thesis by (auto split: if_splits)
  next
    case False
    from Cons.prems False obtain t0 d0 k0 where
      i: "i < length ns" and n: "ns ! i = Element t0 d0 k0" and sub: "node_at k0 p = Some (Element t d k)"
      by (auto split: if_splits node.splits)
    from Cons.IH [OF sub] obtain k0' where
      m: "modify_at p f k0 = Some k0'" and at: "node_at k0' p = Some (Element t d (f k))"
      by blast
    from i n m at False show ?thesis by simp
  qed
qed

lemma modify_at_preserves:
  assumes "modify_at q f ns = Some ns'"
    and "node_at ns r = Some (Element t d k)"
    and "strict_prefix q r \<Longrightarrow> (\<forall>ks. prefix ks (f ks))"
  shows "(\<exists>k'. node_at ns' r = Some (Element t d k')) \<and> ancestor_ids ns' r = ancestor_ids ns r"
  using assms
proof (induction q arbitrary: ns ns' r)
  case Nil
  then show ?case by simp
next
  case (Cons j q)
  from Cons.prems(2) obtain i r' where r: "r = i # r'" and i: "i < length ns"
    by (cases r) (auto split: if_splits)
  from Cons.prems(1) obtain t0 d0 k0 where j: "j < length ns" and nj: "ns ! j = Element t0 d0 k0"
    by (auto split: if_splits node.splits)
  show ?case
  proof (cases "i = j")
    case False
    from Cons.prems(1) j nj obtain n' where ns': "ns' = ns[j := n']"
      by (auto split: if_splits)
    with False Cons.prems(2) r i show ?thesis by (auto split: if_splits)
  next
    case True
    show ?thesis
    proof (cases "q = []")
      case q: True
      with Cons.prems(1) j nj have ns': "ns' = ns[j := Element t0 d0 (f k0)]" by simp
      show ?thesis
      proof (cases "r' = []")
        case True
        with r \<open>i = j\<close> ns' j nj Cons.prems(2) show ?thesis by simp
      next
        case False
        with r \<open>i = j\<close> q have "strict_prefix (j # q) r" by (simp add: strict_prefix_def)
        with Cons.prems(3) have pre: "prefix k0 (f k0)" by blast
        from False r \<open>i = j\<close> j nj Cons.prems(2) have sub: "node_at k0 r' = Some (Element t d k)"
          by simp
        from node_at_prefix [OF pre sub] ancestor_ids_prefix [OF pre sub] False r \<open>i = j\<close> ns' j nj
        show ?thesis by simp
      qed
    next
      case q: False
      with Cons.prems(1) j nj obtain k0' where m: "modify_at q f k0 = Some k0'"
        and ns': "ns' = ns[j := Element t0 d0 k0']"
        by auto
      show ?thesis
      proof (cases "r' = []")
        case True
        with r \<open>i = j\<close> ns' j nj Cons.prems(2) show ?thesis by simp
      next
        case False
        from False r \<open>i = j\<close> j nj Cons.prems(2) have sub: "node_at k0 r' = Some (Element t d k)"
          by simp
        have "strict_prefix q r' \<Longrightarrow> (\<forall>ks. prefix ks (f ks))"
          using Cons.prems(3) r \<open>i = j\<close> by simp
        from Cons.IH [OF m sub this] False r \<open>i = j\<close> ns' j nj
        show ?thesis by simp
      qed
    qed
  qed
qed

lemma keeps_refl [simp]: "keeps doc doc"
  by (simp add: keeps_def)

lemma keeps_trans: "keeps a b \<Longrightarrow> keeps b c \<Longrightarrow> keeps a c"
  unfolding keeps_def by (metis (no_types, lifting))

lemma modify_at_append_keeps:
  "modify_at q (\<lambda>ks. ks @ ex) doc = Some doc' \<Longrightarrow> keeps doc doc'"
  unfolding keeps_def using modify_at_preserves [of q "\<lambda>ks. ks @ ex" doc doc']
  by simp

lemma container_ok_keeps: "container_ok doc p \<Longrightarrow> keeps doc doc' \<Longrightarrow> container_ok doc' p"
proof -
  assume ok: "container_ok doc p" and k: "keeps doc doc'"
  from ok obtain t d ks where n: "node_at doc p = Some (Element t d ks)"
    and d: "plain_tag t" "css_name d" "d \<notin> set (ancestor_ids doc p)"
    by (auto simp: container_ok_def split: option.splits node.splits)
  from k n obtain ks' where "node_at doc' p = Some (Element t d ks')"
    and "ancestor_ids doc' p = ancestor_ids doc p"
    unfolding keeps_def by blast
  with d show ?thesis by (simp add: container_ok_def)
qed

lemma container_ok_modify:
  assumes "container_ok doc p" and "modify_at q f doc = Some doc'" and "\<not> strict_prefix q p"
  shows "container_ok doc' p"
proof -
  from assms(1) obtain t d ks where n: "node_at doc p = Some (Element t d ks)"
    and d: "plain_tag t" "css_name d" "d \<notin> set (ancestor_ids doc p)"
    by (auto simp: container_ok_def split: option.splits node.splits)
  from modify_at_preserves [OF assms(2) n] assms(3)
  obtain ks' where "node_at doc' p = Some (Element t d ks')"
    and "ancestor_ids doc' p = ancestor_ids doc p"
    by blast
  with d show ?thesis by (simp add: container_ok_def)
qed

lemma node_at_append:
  "node_at ns r = Some (Element t d ks) \<Longrightarrow> node_at ns (r @ i # rest) = node_at ks (i # rest)"
proof (induction r arbitrary: ns)
  case Nil
  then show ?case by simp
next
  case (Cons j r)
  show ?case
  proof (cases "r = []")
    case True
    with Cons.prems show ?thesis by (auto split: if_splits)
  next
    case False
    with Cons.prems obtain t0 d0 k0 where "j < length ns" "ns ! j = Element t0 d0 k0"
      "node_at k0 r = Some (Element t d ks)"
      by (auto split: if_splits node.splits)
    with Cons.IH [of k0] False show ?thesis by simp
  qed
qed


subsection \<open>The selector\<close>

lemma node_at_shift [simp]: "node_at (n # rest) (shift q) = node_at rest q"
  by (cases q) auto

lemma ancestor_ids_shift [simp]: "ancestor_ids (n # rest) (shift q) = ancestor_ids rest q"
  by (cases q) auto

lemma select_first_sound:
  "select_first anc t ns = Some q \<Longrightarrow>
   (\<exists>d k. node_at ns q = Some (Element t d k)) \<and>
   (case anc of None \<Rightarrow> True | Some c \<Rightarrow> c \<in> set (ancestor_ids ns q))"
proof (induction anc t ns arbitrary: q rule: select_first.induct)
  case (1 anc t)
  then show ?case by simp
next
  case (2 anc t s rest)
  then show ?case by (auto split: option.splits)
next
  case (3 anc t tg d kids rest)
  show ?case
  proof (cases "anc = None \<and> tg = t \<and> \<not> has_tag t rest")
    case True
    with "3.prems" show ?thesis by auto
  next
    case False
    show ?thesis
    proof (cases "select_first (if anc = Some d then None else anc) t kids")
      case None
      with False "3.prems" obtain q' where q': "select_first anc t rest = Some q'" and q: "q = shift q'"
        by auto
      from "3.IH"(2) [OF False None q'] q show ?thesis by (auto split: option.splits)
    next
      case (Some p)
      with False "3.prems" have q: "q = 0 # p" by auto
      from "3.IH"(1) [OF False Some] have
        el: "\<exists>d k. node_at kids p = Some (Element t d k)"
        and an: "(case (if anc = Some d then None else anc) of None \<Rightarrow> True
                 | Some c \<Rightarrow> c \<in> set (ancestor_ids kids p))"
        by blast+
      from el have "p \<noteq> []" by auto
      with el an q show ?thesis by (auto split: option.splits if_splits)
    qed
  qed
qed

lemma select_first_last_child:
  "select_first None t (ns @ [Element t d k]) \<noteq> None"
proof (induction ns)
  case Nil
  show ?case by simp
next
  case (Cons n ns)
  then show ?case by (cases n) (auto split: option.splits)
qed

lemma select_first_below:
  "i < length ns \<Longrightarrow> ns ! i = Element tg d kids \<Longrightarrow>
   select_first (if anc = Some d then None else anc) t kids \<noteq> None \<Longrightarrow>
   select_first anc t ns \<noteq> None"
proof (induction ns arbitrary: i)
  case Nil
  then show ?case by simp
next
  case (Cons n ns)
  show ?case
  proof (cases i)
    case 0
    with Cons.prems show ?thesis by (auto split: option.splits)
  next
    case (Suc i')
    with Cons.prems Cons.IH [of i'] have "select_first anc t ns \<noteq> None" by simp
    then show ?thesis by (cases n) (auto split: option.splits)
  qed
qed

lemma select_first_finds:
  assumes "node_at ns p = Some (Element tg c kids)"
    and "select_first None t kids \<noteq> None"
    and "anc = None \<or> anc = Some c"
  shows "select_first anc t ns \<noteq> None"
  using assms
proof (induction p arbitrary: ns anc)
  case Nil
  then show ?case by simp
next
  case (Cons i p)
  show ?case
  proof (cases "p = []")
    case True
    with Cons.prems(1) have i: "i < length ns" and n: "ns ! i = Element tg c kids"
      by (auto split: if_splits)
    from Cons.prems(3) have "(if anc = Some c then None else anc) = None" by auto
    with select_first_below [OF i n, of anc t] Cons.prems(2) show ?thesis by simp
  next
    case False
    with Cons.prems(1) obtain t0 d0 k0 where i: "i < length ns" and n: "ns ! i = Element t0 d0 k0"
      and sub: "node_at k0 p = Some (Element tg c kids)"
      by (auto split: if_splits node.splits)
    have "(if anc = Some d0 then None else anc) = None \<or> (if anc = Some d0 then None else anc) = Some c"
      using Cons.prems(3) by auto
    from Cons.IH [OF sub Cons.prems(2) this] select_first_below [OF i n, of anc t]
    show ?thesis by simp
  qed
qed

lemma ancestor_ids_strict_prefix:
  "strict_prefix q p \<Longrightarrow> node_at ns p = Some n \<Longrightarrow> set (ancestor_ids ns q) \<subseteq> set (ancestor_ids ns p)"
proof (induction q arbitrary: ns p)
  case Nil
  then show ?case by simp
next
  case (Cons j q)
  from Cons.prems(1) obtain p' where p: "p = j # p'" and sp: "strict_prefix q p' \<or> (q = [] \<and> p' \<noteq> [])"
    by (cases p) (auto simp: strict_prefix_def)
  show ?case
  proof (cases "q = []")
    case True
    then show ?thesis by simp
  next
    case False
    with sp have sp': "strict_prefix q p'" by simp
    then have "p' \<noteq> []" by auto
    with Cons.prems(2) p obtain t0 d0 k0 where j: "j < length ns" and n: "ns ! j = Element t0 d0 k0"
      and sub: "node_at k0 p' = Some n"
      by (auto split: if_splits node.splits)
    from Cons.IH [OF sp' sub] False \<open>p' \<noteq> []\<close> j n p show ?thesis by auto
  qed
qed

lemma find_id_sound:
  "find_id i ns = Some p \<Longrightarrow>
   (\<exists>t k. node_at ns p = Some (Element t i k)) \<and> i \<notin> set (ancestor_ids ns p)"
proof (induction i ns arbitrary: p rule: find_id.induct)
  case (1 i)
  then show ?case by simp
next
  case (2 i s rest)
  then show ?case by auto
next
  case (3 i tg d kids rest)
  show ?case
  proof (cases "d = i")
    case True
    with "3.prems" show ?thesis by auto
  next
    case False
    show ?thesis
    proof (cases "find_id i kids")
      case None
      with False "3.prems" obtain p' where p': "find_id i rest = Some p'" and p: "p = shift p'"
        by auto
      from "3.IH"(2) [OF False None p'] p show ?thesis by auto
    next
      case (Some q)
      with False "3.prems" have p: "p = 0 # q" by auto
      from "3.IH"(1) [OF False Some] have
        el: "\<exists>t k. node_at kids q = Some (Element t i k)" and an: "i \<notin> set (ancestor_ids kids q)"
        by blast+
      from el have "q \<noteq> []" by auto
      with el an p False show ?thesis by auto
    qed
  qed
qed

subsection \<open>Single steps\<close>

lemma css_name_not_empty: "css_name d \<Longrightarrow> d \<noteq> []"
  by auto


lemma resolved_cases:
  assumes "resolved w"
  obtains p t d k where "textDestinationContainer (writer w) = Some p"
    and "node_at (document w) p = Some (Element t d k)" and "d \<noteq> []"
    and "d \<notin> set (ancestor_ids (document w) p)" and "container_ok (document w) p"
proof -
  from assms obtain p where p: "textDestinationContainer (writer w) = Some p"
    and ok: "container_ok (document w) p"
    by (auto simp: resolved_def split: option.splits)
  from ok obtain t d k where n: "node_at (document w) p = Some (Element t d k)"
    and d: "css_name d" "d \<notin> set (ancestor_ids (document w) p)"
    by (auto simp: container_ok_def split: option.splits node.splits)
  from d(1) have "d \<noteq> []" by (rule css_name_not_empty)
  from p n this d(2) ok show thesis by (rule that)
qed

lemma resolved_wrapper:
  "resolved w \<Longrightarrow> htmlWrapperTag (writer w) = Some t \<Longrightarrow> t \<noteq> [] \<Longrightarrow> plain_tag t"
  by (simp add: resolved_def wrapper_ok_def)

lemma resolved_keeps:
  "resolved w \<Longrightarrow> writer w' = writer w \<Longrightarrow> keeps (document w) (document w') \<Longrightarrow> resolved w'"
  by (auto simp: resolved_def split: option.splits intro: container_ok_keeps)

text \<open>
  A writer is resolved once it is sent to an id that is a name and that
  \<^verbatim>\<open>getElementById\<close> finds on an element with a plain tag.
\<close>

lemma resolved_setDestination:
  assumes "getElementById (document w) i = Some p" and "css_name i"
    and "node_at (document w) p = Some (Element t d k)" and "plain_tag t"
    and "wrapper_ok (writer w)"
  shows "resolved (setDestination i w)"
proof -
  from assms(1) have f: "find_id i (document w) = Some p"
    by (auto simp: getElementById_def split: if_splits)
  from find_id_sound [OF f] assms show ?thesis
    by (auto simp: resolved_def container_ok_def setDestination_def wrapper_ok_def)
qed

lemma resolved_new_TextWriter:
  assumes "getElementById doc i = Some p" and "css_name i"
    and "node_at doc p = Some (Element t d k)" and "plain_tag t"
  shows "resolved (new_TextWriter i scroll doc)"
proof -
  let ?w = "\<lparr>writer = \<lparr>textDestinationContainer = None, animationDelay = hundred,
                        htmlWrapperTag = None, scrollToTextEnabled = False\<rparr>,
             document = doc, trace = []\<rparr>"
  from assms have "resolved (setDestination i ?w)"
    by (intro resolved_setDestination [of ?w i p t d k]) (simp_all add: wrapper_ok_def)
  then show ?thesis
    by (simp add: new_TextWriter_def Let_def resolved_def wrapper_ok_def split: option.splits)
qed

lemma change_children_run:
  assumes "node_at (document w) q = Some (Element t d k)"
  shows "\<exists>doc'. modify_at q f (document w) = Some doc'
           \<and> node_at doc' q = Some (Element t d (f k))
           \<and> change_children (Some q) f ev w = Returned () (record_event (ev q) (w\<lparr>document := doc'\<rparr>))"
proof -
  from modify_at_valid [OF assms, of f] obtain doc' where
    "modify_at q f (document w) = Some doc'" "node_at doc' q = Some (Element t d (f k))"
    by blast
  then show ?thesis by (simp add: change_children_def)
qed

lemma scrollToText_run:
  assumes "resolved w"
  shows "\<exists>w'. scrollToText w = Returned () w' \<and> writer w' = writer w \<and> document w' = document w
           \<and> trace w' = trace w @ scroll_events (writer w)"
proof -
  from assms obtain p t d k where "textDestinationContainer (writer w) = Some p"
    and "node_at (document w) p = Some (Element t d k)"
    by (rule resolved_cases)
  then show ?thesis
    by (simp add: scrollToText_def scrollIntoView_def scroll_events_def)
qed

lemma writeHtmlChar_run:
  assumes q: "node_at (document w) q = Some (Element t d k)" and res: "resolved w"
  shows "\<exists>w'. writeHtmlChar c (Some q) w = Returned () w' \<and> writer w' = writer w
           \<and> trace w' = trace w @ Inserted_html q [span_of c] # scroll_events (writer w)
           \<and> node_at (document w') q = Some (Element t d (k @ [span_of c]))
           \<and> keeps (document w) (document w')"
proof -
  from change_children_run [OF q, of "\<lambda>kids. kids @ [span_of c]" "\<lambda>p. Inserted_html p [span_of c]"]
  obtain doc' where m: "modify_at q (\<lambda>kids. kids @ [span_of c]) (document w) = Some doc'"
    and at: "node_at doc' q = Some (Element t d (k @ [span_of c]))"
    and ins: "insertAdjacentHTML (Some q) [span_of c] w =
              Returned () (record_event (Inserted_html q [span_of c]) (w\<lparr>document := doc'\<rparr>))"
    unfolding insertAdjacentHTML_def by blast
  let ?w1 = "record_event (Inserted_html q [span_of c]) (w\<lparr>document := doc'\<rparr>)"
  from modify_at_append_keeps [OF m] have k: "keeps (document w) doc'" .
  with res have "resolved ?w1" by (auto intro: resolved_keeps)
  from scrollToText_run [OF this] obtain w' where
    "scrollToText ?w1 = Returned () w'" "writer w' = writer ?w1" "document w' = document ?w1"
    "trace w' = trace ?w1 @ scroll_events (writer ?w1)"
    by blast
  with ins at k show ?thesis by (simp add: writeHtmlChar_def)
qed

lemma await_step_sleep [simp]:
  "trace (await_step (sleepAnimationDelay m w) w) = trace w @ [await_event (writer w) m]"
  by (simp add: sleepAnimationDelay_def await_event_def)

lemma resolved_await_step [simp]: "resolved (await_step sl w) = resolved w"
  by (simp add: resolved_def split: option.splits)

lemma resolved_lead_delay [simp]: "resolved (lead_delay d w) = resolved w"
  by (simp add: resolved_def split: option.splits)

lemma trace_lead_delay [simp]: "trace (lead_delay d w) = trace w @ lead_events d"
  by (simp add: lead_delay_def lead_events_def)

lemma write_chars_run:
  assumes "node_at (document w) q = Some (Element t d k)" and "resolved w"
  shows "\<exists>w'. write_chars s m (Some q) w = Returned () w' \<and> writer w' = writer w
           \<and> trace w' = trace w @ concat (map (step_events (writer w) m q) s)
           \<and> node_at (document w') q = Some (Element t d (k @ map span_of s))
           \<and> keeps (document w) (document w')"
  using assms
proof (induction s arbitrary: w k)
  case Nil
  then show ?case by simp
next
  case (Cons c cs)
  let ?wa = "await_step (sleepAnimationDelay m w) w"
  from Cons.prems have "node_at (document ?wa) q = Some (Element t d k)" "resolved ?wa"
    by simp_all
  from writeHtmlChar_run [OF this, of c] obtain w1 where
    w1: "writeHtmlChar c (Some q) ?wa = Returned () w1" "writer w1 = writer w"
    "trace w1 = trace w @ await_event (writer w) m # Inserted_html q [span_of c] # scroll_events (writer w)"
    "node_at (document w1) q = Some (Element t d (k @ [span_of c]))"
    "keeps (document w) (document w1)"
    by auto
  from Cons.prems(2) w1(2,5) have "resolved w1" by (rule resolved_keeps)
  from Cons.IH [OF w1(4) this] obtain w' where
    w': "write_chars cs m (Some q) w1 = Returned () w'" "writer w' = writer w1"
    "trace w' = trace w1 @ concat (map (step_events (writer w1) m q) cs)"
    "node_at (document w') q = Some (Element t d ((k @ [span_of c]) @ map span_of cs))"
    "keeps (document w1) (document w')"
    by blast
  have head: "step_events (writer w) m q c =
      await_event (writer w) m # Inserted_html q [span_of c] # scroll_events (writer w)"
    by (simp add: step_events_def)
  from w1 w' keeps_trans [OF w1(5) w'(5)] show ?case
    by (simp add: head)
qed

subsection \<open>The target and the write of one string\<close>

lemma getTargetElement_plain:
  assumes "htmlWrapperTag (writer w) = None \<or> htmlWrapperTag (writer w) = Some []"
  shows "getTargetElement w = Returned (textDestinationContainer (writer w)) w"
  using assms by (auto simp: getTargetElement_def)

lemma getTargetElement_wrapper:
  assumes tag: "htmlWrapperTag (writer w) = Some t" "t \<noteq> []"
    and p: "textDestinationContainer (writer w) = Some p"
    and n: "node_at (document w) p = Some (Element tg c k)"
    and ok: "container_ok (document w) p"
  shows "\<exists>q d' k' doc1.
           modify_at p (\<lambda>ks. ks @ [Element t [] []]) (document w) = Some doc1
           \<and> node_at doc1 p = Some (Element tg c (k @ [Element t [] []]))
           \<and> getTargetElement w =
               Returned (Some q) (record_event (Inserted_html p [Element t [] []]) (w\<lparr>document := doc1\<rparr>))
           \<and> node_at doc1 q = Some (Element t d' k')
           \<and> \<not> strict_prefix q p \<and> q \<noteq> p"
proof -
  from change_children_run [OF n, of "\<lambda>ks. ks @ [Element t [] []]" "\<lambda>p. Inserted_html p [Element t [] []]"]
  obtain doc1 where m: "modify_at p (\<lambda>ks. ks @ [Element t [] []]) (document w) = Some doc1"
    and at: "node_at doc1 p = Some (Element tg c (k @ [Element t [] []]))"
    and ins: "insertAdjacentHTML (Some p) [Element t [] []] w =
              Returned () (record_event (Inserted_html p [Element t [] []]) (w\<lparr>document := doc1\<rparr>))"
    unfolding insertAdjacentHTML_def by blast
  let ?w1 = "record_event (Inserted_html p [Element t [] []]) (w\<lparr>document := doc1\<rparr>)"
  from modify_at_append_keeps [OF m] ok have ok1: "container_ok doc1 p"
    by (rule container_ok_keeps [rotated])
  with at have c: "c \<noteq> []" "c \<notin> set (ancestor_ids doc1 p)"
    by (auto simp: container_ok_def dest: css_name_not_empty)
  have "select_first (Some c) t doc1 \<noteq> None"
    by (rule select_first_finds [OF at select_first_last_child]) simp
  then obtain q where q: "select_first (Some c) t doc1 = Some q" by blast
  from select_first_sound [OF q] obtain d' k' where
    atq: "node_at doc1 q = Some (Element t d' k')" and anc: "c \<in> set (ancestor_ids doc1 q)"
    by auto
  from anc c(2) ancestor_ids_strict_prefix [OF _ at, of q] have nsp: "\<not> strict_prefix q p"
    by blast
  from anc c(2) have neq: "q \<noteq> p" by blast
  have "id_of (Some p) ?w1 = Returned c ?w1"
    using at by (simp add: id_of_def)
  moreover have "document_querySelector c t ?w1 = Returned (Some q) ?w1"
    using c(1) q by (simp add: document_querySelector_def)
  ultimately have "getTargetElement w = Returned (Some q) ?w1"
    using tag p ins by (simp add: getTargetElement_def)
  with m at atq nsp neq show ?thesis by blast
qed

lemma wrapper_events_plain:
  "htmlWrapperTag tw = None \<or> htmlWrapperTag tw = Some [] \<Longrightarrow> wrapper_events tw = []"
  by (auto simp: wrapper_events_def split: option.splits)

lemma wrapper_events_wrapper:
  "htmlWrapperTag tw = Some t \<Longrightarrow> t \<noteq> [] \<Longrightarrow> textDestinationContainer tw = Some p \<Longrightarrow>
   wrapper_events tw = [Inserted_html p [Element t [] []]]"
  by (simp add: wrapper_events_def)

lemma getTargetElement_run:
  assumes "resolved w"
  shows "\<exists>q t d k w1 p. getTargetElement w = Returned (Some q) w1 \<and> writer w1 = writer w
           \<and> trace w1 = trace w @ wrapper_events (writer w)
           \<and> node_at (document w1) q = Some (Element t d k)
           \<and> keeps (document w) (document w1)
           \<and> textDestinationContainer (writer w) = Some p \<and> \<not> strict_prefix q p"
proof -
  from assms obtain p tg c k where p: "textDestinationContainer (writer w) = Some p"
    and n: "node_at (document w) p = Some (Element tg c k)"
    and ok: "container_ok (document w) p"
    by (rule resolved_cases)
  show ?thesis
  proof (cases "htmlWrapperTag (writer w) = None \<or> htmlWrapperTag (writer w) = Some []")
    case True
    from getTargetElement_plain [OF True] wrapper_events_plain [OF True] p n show ?thesis
      by simp
  next
    case False
    then obtain t where tag: "htmlWrapperTag (writer w) = Some t" "t \<noteq> []" by auto
    from getTargetElement_wrapper [OF tag p n ok] obtain q d' k' doc1 where
      m: "modify_at p (\<lambda>ks. ks @ [Element t [] []]) (document w) = Some doc1"
      and g: "getTargetElement w =
               Returned (Some q) (record_event (Inserted_html p [Element t [] []]) (w\<lparr>document := doc1\<rparr>))"
      and atq: "node_at doc1 q = Some (Element t d' k')" and nsp: "\<not> strict_prefix q p"
      by blast
    from modify_at_append_keeps [OF m] g atq nsp p wrapper_events_wrapper [OF tag p]
    show ?thesis by simp
  qed
qed

lemma write_scalar_run:
  assumes "resolved w"
  shows "\<exists>q t d k w1 w'.
           getTargetElement (lead_delay delay w) = Returned (Some q) w1
           \<and> trace w1 = trace w @ lead_events delay @ wrapper_events (writer w)
           \<and> node_at (document w1) q = Some (Element t d k)
           \<and> write (Scalar s) m delay replace w = Returned () w'
           \<and> writer w' = writer w
           \<and> trace w' = trace w1 @ (if replace then [Cleared q] else [])
                          @ concat (map (step_events (writer w) m q) s)
           \<and> node_at (document w') q = Some (Element t d ((if replace then [] else k) @ map span_of s))
           \<and> resolved w'"
proof -
  from assms have "resolved (lead_delay delay w)" by simp
  from getTargetElement_run [OF this] obtain q t d k w1 p where
    g: "getTargetElement (lead_delay delay w) = Returned (Some q) w1"
    and w1: "writer w1 = writer w" "trace w1 = trace w @ lead_events delay @ wrapper_events (writer w)"
    and atq: "node_at (document w1) q = Some (Element t d k)"
    and k1: "keeps (document w) (document w1)"
    and p: "textDestinationContainer (writer w) = Some p" and nsp: "\<not> strict_prefix q p"
    by auto
  from assms w1(1) k1 have r1: "resolved w1" by (auto intro: resolved_keeps)
  show ?thesis
  proof (cases replace)
    case False
    from write_chars_run [OF atq r1, of s m] obtain w' where
      "write_chars s m (Some q) w1 = Returned () w'" "writer w' = writer w1"
      "trace w' = trace w1 @ concat (map (step_events (writer w1) m q) s)"
      "node_at (document w') q = Some (Element t d (k @ map span_of s))"
      "keeps (document w1) (document w')"
      by blast
    with False g w1 atq resolved_keeps [OF r1, of w'] show ?thesis by simp
  next
    case True
    from change_children_run [OF atq, of "\<lambda>kids. []" Cleared] obtain doc2 where
      m: "modify_at q (\<lambda>kids. []) (document w1) = Some doc2"
      and at2: "node_at doc2 q = Some (Element t d [])"
      and cl: "clear_innerHTML (Some q) w1 = Returned () (record_event (Cleared q) (w1\<lparr>document := doc2\<rparr>))"
      unfolding clear_innerHTML_def by blast
    let ?w2 = "record_event (Cleared q) (w1\<lparr>document := doc2\<rparr>)"
    from r1 p w1(1) have "container_ok (document w1) p" by (simp add: resolved_def)
    from container_ok_modify [OF this m nsp] p w1(1) r1 have r2: "resolved ?w2"
      by (simp add: resolved_def)
    have at2': "node_at (document ?w2) q = Some (Element t d [])" using at2 by simp
    from write_chars_run [OF at2' r2, of s m] obtain w' where
      "write_chars s m (Some q) ?w2 = Returned () w'" "writer w' = writer ?w2"
      "trace w' = trace ?w2 @ concat (map (step_events (writer ?w2) m q) s)"
      "node_at (document w') q = Some (Element t d ([] @ map span_of s))"
      "keeps (document ?w2) (document w')"
      by blast
    with True g w1 atq cl resolved_keeps [OF r2, of w'] show ?thesis by simp
  qed
qed


lemma no_clear_in_steps: "filter is_cleared (concat (map (step_events tw m q) s)) = []"
proof (induction s)
  case Nil
  show ?case by simp
next
  case (Cons c cs)
  have "filter is_cleared (step_events tw m q c) = []"
    by (simp add: step_events_def await_event_def scroll_events_def split: option.splits)
  with Cons show ?case by simp
qed

lemma no_clear_before_target:
  "filter is_cleared (lead_events delay @ wrapper_events tw) = []"
  by (simp add: lead_events_def wrapper_events_def split: option.splits)

subsection \<open>Writing one string\<close>


lemmas resolved_steps =
  resolved_def container_ok_def wrapper_ok_def plain_tag_def name_start_def name_char_def
  new_TextWriter_def setDestination_def setHtmlWrapperTag_def setAnimationDelay_def
  getElementById_def

lemma resolved_box [simp]: "resolved (new_TextWriter ''box'' scroll box_page)"
  by (simp add: resolved_steps box_page_def)

text \<open>With the defaults the pause of a step of \<^verbatim>\<open>write\<close> is \<^verbatim>\<open>100 * 1\<close>.\<close>

lemma hundred_times_one: "multiply hundred one = Finite False 7036874417766400 (- 46)"
  by (simp add: hundred_def one_def round_binary64_def round_half_even_def Let_def
      binary_digits.simps)

lemmas write_steps =
  new_TextWriter_def setDestination_def setHtmlWrapperTag_def getElementById_def
  getTargetElement_def insertAdjacentHTML_def change_children_def id_of_def
  document_querySelector_def writeHtmlChar_def scrollToText_def sleepAnimationDelay_def
  record_event_def lead_delay_def zero_def span_of_def




subsection \<open>What a call adds to the trace\<close>

lemma adds_Returned [simp]: "adds P (Returned x w) w"
  by (simp add: adds_def)

lemma adds_Thrown [simp]: "adds P (Thrown e w) w"
  by (simp add: adds_def)

lemma adds_and_then:
  assumes "adds P r w" and "writer (world_of r) = writer w"
    and "\<And>x w1. writer w1 = writer w \<Longrightarrow> adds P (f x w1) w1"
  shows "adds P (and_then r f) w"
proof (cases r)
  case (Returned x w1)
  with assms(1) obtain es where es: "trace w1 = trace w @ es" "list_all P es"
    by (auto simp: adds_def)
  from Returned assms(2) have "writer w1 = writer w" by simp
  from assms(3) [OF this, of x] obtain es' where
    "trace (world_of (f x w1)) = trace w1 @ es'" "list_all P es'"
    by (auto simp: adds_def)
  with es Returned show ?thesis by (auto simp: adds_def)
next
  case (Thrown e w1)
  with assms(1) show ?thesis by (simp add: adds_def)
qed

lemma adds_after_event:
  "adds P r (record_event e w) \<Longrightarrow> P e \<Longrightarrow> adds P r w"
  by (auto simp: adds_def)

lemma adds_change_children:
  "(\<And>p. P (ev p)) \<Longrightarrow> adds P (change_children target f ev w) w"
  by (auto simp: adds_def change_children_def split: option.splits)

lemma adds_scrollToText:
  "(\<And>e. is_page_event e \<Longrightarrow> P e) \<Longrightarrow> adds P (scrollToText w) w"
  by (auto simp: adds_def scrollToText_def scrollIntoView_def split: option.splits node.splits)

lemma adds_writeHtmlChar:
  assumes "\<And>e. is_page_event e \<Longrightarrow> P e"
  shows "adds P (writeHtmlChar c target w) w"
  unfolding writeHtmlChar_def insertAdjacentHTML_def
  by (rule adds_and_then) (simp_all add: adds_change_children adds_scrollToText assms)

lemma adds_write_chars:
  assumes "\<And>e. is_page_event e \<Longrightarrow> P e" and "P (await_event (writer w) m)"
  shows "adds P (write_chars s m target w) w"
  using assms(2)
proof (induction s arbitrary: w)
  case Nil
  show ?case by simp
next
  case (Cons c cs)
  let ?wa = "await_step (sleepAnimationDelay m w) w"
  have wa: "?wa = record_event (await_event (writer w) m) w"
    by (simp add: sleepAnimationDelay_def await_event_def)
  have "adds P (and_then (writeHtmlChar c target ?wa) (\<lambda>u w1. write_chars cs m target w1)) ?wa"
    by (rule adds_and_then) (simp_all add: adds_writeHtmlChar assms(1) Cons)
  from this Cons.prems show ?case
    unfolding write_chars.simps wa by (rule adds_after_event)
qed

lemma adds_getTargetElement:
  assumes "\<And>e. is_page_event e \<Longrightarrow> P e"
  shows "adds P (getTargetElement w) w"
proof (cases "htmlWrapperTag (writer w) = None \<or> htmlWrapperTag (writer w) = Some []")
  case True
  then show ?thesis by (auto simp: getTargetElement_def)
next
  case False
  then obtain t where t: "htmlWrapperTag (writer w) = Some t" "t \<noteq> []" by auto
  have "adds P (and_then
          (insertAdjacentHTML (textDestinationContainer (writer w)) [Element t [] []] w)
          (\<lambda>u w1. and_then (id_of (textDestinationContainer (writer w1)) w1)
             (\<lambda>c w2. document_querySelector c t w2))) w"
    apply (rule adds_and_then)
      apply (simp add: insertAdjacentHTML_def adds_change_children assms)
     apply (simp add: insertAdjacentHTML_def)
    apply (rule adds_and_then)
      apply (simp add: id_of_def split: option.splits node.splits)
     apply (simp add: id_of_def split: option.splits node.splits)
    apply (simp add: document_querySelector_def)
    done
  with t show ?thesis by (simp add: getTargetElement_def)
qed

lemma lead_delay_zero [simp]: "lead_delay zero w = w"
  by (simp add: lead_delay_def zero_def)

lemma adds_write:
  assumes page: "\<And>e. is_page_event e \<Longrightarrow> P e" and aw: "P Awaited_write"
  shows "P (await_event (writer w) m) \<Longrightarrow> adds P (write c m d r w) (lead_delay d w)"
    and "P (await_event (writer w) m) \<Longrightarrow> adds P (write_each cs m r w) w"
proof (induction c m d r w and cs m r w rule: write_write_each.induct)
  case (1 items multiplier delay replace w)
  then show ?case by simp
next
  case (2 s multiplier delay replace w)
  show ?case
    unfolding "write.simps"
    apply (rule adds_and_then)
      apply (simp add: adds_getTargetElement page)
     apply simp
    apply (rule adds_and_then)
      apply (simp add: clear_innerHTML_def adds_change_children page)
     apply (simp add: clear_innerHTML_def)
    apply (rule adds_write_chars)
     apply (simp add: page)
    apply (simp add: 2)
    done
next
  case (3 multiplier replace w)
  then show ?case by simp
next
  case (4 x xs multiplier replace w)
  from 4 have first: "adds P (write x multiplier zero replace w) w" by simp
  show ?case
    unfolding write_each.simps
  proof (rule adds_and_then [OF first])
    show "writer (world_of (write x multiplier zero replace w)) = writer w"
      by (simp add: writer_write)
  next
    fix u and w1 :: world
    assume "writer w1 = writer w"
    with 4 have "adds P (write_each xs multiplier replace (record_event Awaited_write w1))
                  (record_event Awaited_write w1)"
      by simp
    then show "adds P (write_each xs multiplier replace (record_event Awaited_write w1)) w1"
      using aw by (rule adds_after_event)
  qed
qed

lemma new_events_adds:
  "adds P r w0 \<Longrightarrow> trace w0 = trace w @ pre \<Longrightarrow>
   \<exists>es. drop (length (trace w)) (trace (world_of r)) = pre @ es \<and> list_all P es"
  by (auto simp: adds_def)

subsection \<open>The lead delay\<close>

text \<open>
  C8. What \<^verbatim>\<open>write\<close> adds to the trace begins with the one lead pause exactly when
  the lead delay is truthy, that is neither zero nor \<^verbatim>\<open>NaN\<close>; no other lead pause
  follows, since the calls for the elements of an array are given the delay zero.
  A delay that is not positive can still be truthy: a negative one leads to the
  pause, as the example after the theorem shows.
\<close>

theorem lead_pause_iff_truthy:
  "\<exists>es. events_of (write c m delay replace) w
           = (if truthy delay then [Lead_pause delay] else []) @ es
        \<and> list_all (\<lambda>e. \<not> is_lead_pause e) es"
proof -
  have "adds (\<lambda>e. \<not> is_lead_pause e) (write c m delay replace w) (lead_delay delay w)"
    by (rule adds_write) (auto simp: await_event_def elim: is_page_event.elims)
  from new_events_adds [OF this, of w "lead_events delay"] show ?thesis
    by (simp add: lead_events_def events_of_def)
qed

theorem negative_lead_delay_pauses:
  "\<not> greater_zero (Finite True 5 0)
   \<and> events_of (write (Scalar []) one (Finite True 5 0) False) (new_TextWriter ''box'' False box_page)
       = [Lead_pause (Finite True 5 0)]"
  by (simp add: events_of_def new_TextWriter_def setDestination_def getElementById_def box_page_def
      getTargetElement_def lead_delay_def)

subsection \<open>Writing an array\<close>






subsection \<open>Replacing\<close>

lemma write_each_scalars_run:
  assumes "resolved w"
  shows "\<exists>w' es. write_each (map Scalar L) m r w = Returned () w' \<and> writer w' = writer w
           \<and> resolved w' \<and> trace w' = trace w @ es
           \<and> length (filter is_cleared es) = (if r then length L else 0)"
  using assms
proof (induction L arbitrary: w)
  case Nil
  then show ?case by simp
next
  case (Cons s L)
  from write_scalar_run [OF Cons.prems, of zero s m r] obtain q t d k w1 w2 where
    "getTargetElement (lead_delay zero w) = Returned (Some q) w1
     \<and> trace w1 = trace w @ lead_events zero @ wrapper_events (writer w)
     \<and> node_at (document w1) q = Some (Element t d k)
     \<and> write (Scalar s) m zero r w = Returned () w2
     \<and> writer w2 = writer w
     \<and> trace w2 = trace w1 @ (if r then [Cleared q] else [])
                     @ concat (map (step_events (writer w) m q) s)
     \<and> node_at (document w2) q = Some (Element t d ((if r then [] else k) @ map span_of s))
     \<and> resolved w2"
    by blast
  then have run: "write (Scalar s) m zero r w = Returned () w2" "writer w2 = writer w" "resolved w2"
    "trace w1 = trace w @ lead_events zero @ wrapper_events (writer w)"
    "trace w2 = trace w1 @ (if r then [Cleared q] else [])
                 @ concat (map (step_events (writer w) m q) s)"
    by blast+
  let ?w3 = "record_event Awaited_write w2"
  from run(3) have "resolved ?w3" by (simp add: resolved_def split: option.splits)
  from Cons.IH [OF this] obtain w' es where
    rest: "write_each (map Scalar L) m r ?w3 = Returned () w'" "writer w' = writer ?w3"
    "resolved w'" "trace w' = trace ?w3 @ es"
    "length (filter is_cleared es) = (if r then length L else 0)"
    by blast
  let ?es = "lead_events zero @ wrapper_events (writer w) @ (if r then [Cleared q] else [])
             @ concat (map (step_events (writer w) m q) s) @ Awaited_write # es"
  from run rest have "trace w' = trace w @ ?es" by simp
  moreover from rest(5) no_clear_before_target [of zero "writer w"]
  have "length (filter is_cleared ?es) = (if r then length (s # L) else 0)"
    by (simp add: no_clear_in_steps)
  ultimately show ?case using run rest by (intro exI [of _ w'] exI [of _ ?es]) simp
qed

text \<open>
  For a resolved writer, \<^verbatim>\<open>write\<close> of a string with the replace flag empties the
  target once: after the lead pause and the making of the wrapper element, if any,
  and before the first step of the loop over the characters; no step empties
  anything. \<^verbatim>\<open>write\<close> of an array of strings with the flag returns, and it has emptied
  a target once for each string of the array.
\<close>

lemma write_replace_clears_each:
  assumes "resolved w"
  shows "(\<exists>q w1. getTargetElement (lead_delay delay w) = Returned (Some q) w1
            \<and> events_of (write (Scalar s) m delay True) w
                = lead_events delay @ wrapper_events (writer w)
                  @ Cleared q # concat (map (step_events (writer w) m q) s))
         \<and> length (filter is_cleared (events_of (write (Scalar s) m delay True) w)) = 1
         \<and> (\<exists>w'. write (Sequence (map Scalar L)) m delay True w = Returned () w')
         \<and> length (filter is_cleared (events_of (write (Sequence (map Scalar L)) m delay True) w))
             = length L"
proof -
  from write_scalar_run [OF assms, of delay s m True] obtain q w1 w' where
    run: "getTargetElement (lead_delay delay w) = Returned (Some q) w1"
    "trace w1 = trace w @ lead_events delay @ wrapper_events (writer w)"
    "write (Scalar s) m delay True w = Returned () w'"
    "trace w' = trace w1 @ (if True then [Cleared q] else [])
                 @ concat (map (step_events (writer w) m q) s)"
    by blast
  then have ev: "events_of (write (Scalar s) m delay True) w
      = lead_events delay @ wrapper_events (writer w)
        @ Cleared q # concat (map (step_events (writer w) m q) s)"
    by (simp add: events_of_def)
  from ev no_clear_before_target [of delay "writer w"]
  have one: "length (filter is_cleared (events_of (write (Scalar s) m delay True) w)) = 1"
    by (simp add: no_clear_in_steps)
  from assms have "resolved (lead_delay delay w)" by simp
  from write_each_scalars_run [OF this, of L m True] obtain w'' es where
    each: "write_each (map Scalar L) m True (lead_delay delay w) = Returned () w''"
    "trace w'' = trace (lead_delay delay w) @ es" "length (filter is_cleared es) = length L"
    by auto
  then have "events_of (write (Sequence (map Scalar L)) m delay True) w = lead_events delay @ es"
    by (simp add: events_of_def)
  with each(3) have many: "length (filter is_cleared
      (events_of (write (Sequence (map Scalar L)) m delay True) w)) = length L"
    by (simp add: lead_events_def)
  from run(1) ev one each(1) many show ?thesis by auto
qed

text \<open>
  C5. With the replace flag each string of an array has a target emptied once,
  after its wrapper element is made. But the target need not be that wrapper
  element: the selector \<^verbatim>\<open>#box span:last-of-type\<close> returns the first match in the
  page, and an older element below the container can be one. With the wrapper tag
  \<^verbatim>\<open>span\<close> on an empty \<^verbatim>\<open><div id="box">\<close>, both a plain tag and an id that is a name,
  \<^verbatim>\<open>write(['a', 'b'], 1, 0, true)\<close> makes its first wrapper, empties it and appends
  the unit of \<^verbatim>\<open>a\<close> to it. For the second string it appends a second wrapper to the
  box, but what it empties is the unit of \<^verbatim>\<open>a\<close> inside the first wrapper, which is the
  last \<^verbatim>\<open>span\<close> among its siblings and comes first in the page. The \<^verbatim>\<open>a\<close> is gone, the
  unit of \<^verbatim>\<open>b\<close> is inside what was the unit of \<^verbatim>\<open>a\<close>, and the second wrapper is empty
  and was never emptied.
\<close>

theorem write_list_replace_misses_new_wrapper:
  "resolved (setHtmlWrapperTag (Some ''span'') (new_TextWriter ''box'' False box_page))
   \<and> document (world_of (write (Sequence [Scalar [97], Scalar [98]]) one zero True
        (setHtmlWrapperTag (Some ''span'') (new_TextWriter ''box'' False box_page))))
       = [Element ''html'' []
            [Element ''body'' []
               [Element ''div'' ''box''
                  [Element ''span'' []
                     [Element ''span'' [] [Element ''span'' [] [TextNode [98]]]],
                   Element ''span'' [] []]]]]
   \<and> filter is_page_event (events_of (write (Sequence [Scalar [97], Scalar [98]]) one zero True)
        (setHtmlWrapperTag (Some ''span'') (new_TextWriter ''box'' False box_page)))
       = [Inserted_html [0, 0, 0] [Element ''span'' [] []],
          Cleared [0, 0, 0, 0],
          Inserted_html [0, 0, 0, 0] [Element ''span'' [] [TextNode [97]]],
          Inserted_html [0, 0, 0] [Element ''span'' [] []],
          Cleared [0, 0, 0, 0, 0],
          Inserted_html [0, 0, 0, 0, 0] [Element ''span'' [] [TextNode [98]]]]"
proof -
  let ?w = "setHtmlWrapperTag (Some ''span'') (new_TextWriter ''box'' False box_page)"
  have r: "resolved ?w"
    by (simp add: resolved_steps box_page_def)
  have run: "write (Sequence [Scalar [97], Scalar [98]]) one zero True ?w
    = Returned () \<lparr>writer = writer ?w,
        document = [Element ''html'' []
            [Element ''body'' []
               [Element ''div'' ''box''
                  [Element ''span'' []
                     [Element ''span'' [] [Element ''span'' [] [TextNode [98]]]],
                   Element ''span'' [] []]]]],
        trace = [Inserted_html [0, 0, 0] [Element ''span'' [] []],
          Cleared [0, 0, 0, 0],
          Step_pause (Finite False 7036874417766400 (- 46)),
          Inserted_html [0, 0, 0, 0] [Element ''span'' [] [TextNode [97]]],
          Awaited_write,
          Inserted_html [0, 0, 0] [Element ''span'' [] []],
          Cleared [0, 0, 0, 0, 0],
          Step_pause (Finite False 7036874417766400 (- 46)),
          Inserted_html [0, 0, 0, 0, 0] [Element ''span'' [] [TextNode [98]]],
          Awaited_write]\<rparr>"
    by (simp add: write_steps clear_innerHTML_def box_page_def hundred_times_one)
  have t: "trace ?w = []"
    by (simp add: new_TextWriter_def setDestination_def setHtmlWrapperTag_def)
  from r run t show ?thesis
    by (simp add: events_of_def del: "write.simps")
qed

subsection \<open>A zero product\<close>

lemma forget_ready_world_fields [simp]:
  "writer (forget_ready_world w) = writer w"
  "document (forget_ready_world w) = document w"
  "trace (forget_ready_world w) = filter (\<lambda>e. e \<noteq> Step_ready) (trace w)"
  by (simp_all add: forget_ready_world_def)

lemma similar_fields:
  assumes "forget_ready_world w = forget_ready_world v"
  shows "writer w = writer v" and "document w = document v"
    and "filter (\<lambda>e. e \<noteq> Step_ready) (trace w) = filter (\<lambda>e. e \<noteq> Step_ready) (trace v)"
proof -
  from arg_cong [OF assms, of writer] show "writer w = writer v" by simp
  from arg_cong [OF assms, of document] show "document w = document v" by simp
  from arg_cong [OF assms, of trace]
  show "filter (\<lambda>e. e \<noteq> Step_ready) (trace w) = filter (\<lambda>e. e \<noteq> Step_ready) (trace v)" by simp
qed

lemma similarI:
  "writer w = writer v \<Longrightarrow> document w = document v \<Longrightarrow>
   filter (\<lambda>e. e \<noteq> Step_ready) (trace w) = filter (\<lambda>e. e \<noteq> Step_ready) (trace v) \<Longrightarrow>
   forget_ready_world w = forget_ready_world v"
  by (rule world.equality) simp_all

lemma forget_step_ready [simp]:
  "forget_ready_world (record_event Step_ready w) = forget_ready_world w"
  by (rule similarI) simp_all

lemma similar_and_then:
  assumes "forget_ready r = forget_ready r'"
    and "writer (world_of r) = W"
    and "\<And>x w v. forget_ready_world w = forget_ready_world v \<Longrightarrow> writer w = W \<Longrightarrow>
           forget_ready (f x w) = forget_ready (g x v)"
  shows "forget_ready (and_then r f) = forget_ready (and_then r' g)"
  using assms by (cases r; cases r') auto

lemma similar_change_children:
  assumes "forget_ready_world w = forget_ready_world v"
  shows "forget_ready (change_children target f ev w) = forget_ready (change_children target f ev v)"
proof -
  note s = similar_fields [OF assms]
  show ?thesis
    by (auto simp: change_children_def s(2) assms split: option.splits
        intro!: similarI simp: s(1) s(3))
qed

lemma similar_scrollToText:
  assumes "forget_ready_world w = forget_ready_world v"
  shows "forget_ready (scrollToText w) = forget_ready (scrollToText v)"
proof -
  note s = similar_fields [OF assms]
  show ?thesis
    by (auto simp: scrollToText_def scrollIntoView_def s(1) s(2) assms
        split: option.splits node.splits intro!: similarI simp: s(3))
qed

lemma similar_writeHtmlChar:
  assumes "forget_ready_world w = forget_ready_world v"
  shows "forget_ready (writeHtmlChar c target w) = forget_ready (writeHtmlChar c target v)"
  unfolding writeHtmlChar_def insertAdjacentHTML_def
proof (rule similar_and_then [where W = "writer w"])
  show "forget_ready (change_children target (\<lambda>kids. kids @ [span_of c])
          (\<lambda>p. Inserted_html p [span_of c]) w)
      = forget_ready (change_children target (\<lambda>kids. kids @ [span_of c])
          (\<lambda>p. Inserted_html p [span_of c]) v)"
    using assms by (rule similar_change_children)
  show "writer (world_of (change_children target (\<lambda>kids. kids @ [span_of c])
          (\<lambda>p. Inserted_html p [span_of c]) w)) = writer w"
    by simp
next
  fix x and w1 v1 :: world
  assume "forget_ready_world w1 = forget_ready_world v1"
  then show "forget_ready (scrollToText w1) = forget_ready (scrollToText v1)"
    by (rule similar_scrollToText)
qed

lemma write_chars_sync_similar:
  assumes "equals_zero (multiply (animationDelay (writer w)) m)"
    and "forget_ready_world w = forget_ready_world v"
  shows "forget_ready (write_chars s m target w) = forget_ready (write_chars_sync s target v)"
  using assms
proof (induction s arbitrary: w v)
  case Nil
  then show ?case by simp
next
  case (Cons c cs)
  let ?wa = "await_step (sleepAnimationDelay m w) w"
  from Cons.prems(1) have wa: "?wa = record_event Step_ready w"
    by (simp add: sleepAnimationDelay_def)
  with Cons.prems(2) have sim: "forget_ready_world ?wa = forget_ready_world v" by simp
  show ?case
    unfolding write_chars.simps write_chars_sync.simps
  proof (rule similar_and_then [where W = "writer w"])
    show "forget_ready (writeHtmlChar c target ?wa) = forget_ready (writeHtmlChar c target v)"
      using sim by (rule similar_writeHtmlChar)
    show "writer (world_of (writeHtmlChar c target ?wa)) = writer w" by simp
  next
    fix x and w1 v1 :: world
    assume "forget_ready_world w1 = forget_ready_world v1" "writer w1 = writer w"
    with Cons.prems(1) show "forget_ready (write_chars cs m target w1)
        = forget_ready (write_chars_sync cs target v1)"
      by (intro Cons.IH) simp_all
  qed
qed

lemma ready_then_mono: "ready_then False es \<Longrightarrow> ready_then b es"
  by (cases es) auto

lemma after_ready_await: "after_ready es \<Longrightarrow> after_ready (Step_ready # es)"
  by (simp add: after_ready_def ready_then_mono)

lemma after_ready_unit [simp]:
  "after_ready (Step_ready # Inserted_html q u # es) = after_ready es"
  by (simp add: after_ready_def)

lemma after_ready_scrolled [simp]: "after_ready (Scrolled p # es) = after_ready es"
  by (simp add: after_ready_def)

lemma after_ready_Nil [simp]: "after_ready []"
  by (simp add: after_ready_def)

lemma writeHtmlChar_trace:
  "\<exists>es. trace (world_of (writeHtmlChar c target w)) = trace w @ es
        \<and> (es = [] \<or> (\<exists>q. es = [Inserted_html q [span_of c]]
                           \<or> (\<exists>p. es = [Inserted_html q [span_of c], Scrolled p])))"
  by (auto simp: writeHtmlChar_def insertAdjacentHTML_def change_children_def scrollToText_def
      scrollIntoView_def split: option.splits node.splits)

lemma write_chars_after_ready:
  assumes "equals_zero (multiply (animationDelay (writer w)) m)"
  shows "\<exists>steps. trace (world_of (write_chars s m target w)) = trace w @ steps \<and> after_ready steps"
  using assms
proof (induction s arbitrary: w)
  case Nil
  show ?case by simp
next
  case (Cons c cs)
  let ?wa = "await_step (sleepAnimationDelay m w) w"
  from Cons.prems have wa: "?wa = record_event Step_ready w"
    by (simp add: sleepAnimationDelay_def)
  from writeHtmlChar_trace [of c target ?wa] wa obtain es where
    es: "trace (world_of (writeHtmlChar c target ?wa)) = trace w @ Step_ready # es"
    and shape: "es = [] \<or> (\<exists>q. es = [Inserted_html q [span_of c]]
                           \<or> (\<exists>p. es = [Inserted_html q [span_of c], Scrolled p]))"
    by auto
  show ?case
  proof (cases "writeHtmlChar c target ?wa")
    case (Thrown e w1)
    with es have "trace (world_of (write_chars (c # cs) m target w)) = trace w @ Step_ready # es"
      by simp
    moreover from shape have "after_ready (Step_ready # es)"
      by (auto intro: after_ready_await)
    ultimately show ?thesis by blast
  next
    case (Returned u w1)
    have "writer w1 = writer (world_of (writeHtmlChar c target ?wa))" using Returned by simp
    then have "writer w1 = writer w" by simp
    with Cons.prems have "equals_zero (multiply (animationDelay (writer w1)) m)" by simp
    from Cons.IH [OF this] obtain steps where
      steps: "trace (world_of (write_chars cs m target w1)) = trace w1 @ steps" "after_ready steps"
      by blast
    from Returned es steps(1)
    have "trace (world_of (write_chars (c # cs) m target w)) = trace w @ Step_ready # es @ steps"
      by simp
    moreover from shape steps(2) have "after_ready (Step_ready # es @ steps)"
      by (auto intro: after_ready_await)
    ultimately show ?thesis by blast
  qed
qed

text \<open>
  C4. When the product of the delay and the multiplier equals zero, \<^verbatim>\<open>write\<close> of a
  string sets no timer in its steps. With the awaits of a ready value left out, the
  call does what the write without pauses does: the same outcome, page and events.
  Each step still passes its \<^verbatim>\<open>await\<close>, of the value \<^verbatim>\<open>true\<close>. The call adds to the
  trace what the write of the empty string adds, which has all of the call but the
  loop over the characters, and then the events of the loop; in these every
  insertion comes directly after such an await. The example after the theorem has
  the await in the trace before the append. All this holds whether the call
  returns or throws.
\<close>

theorem write_zero_product_sets_no_timer:
  assumes "equals_zero (multiply (animationDelay (writer w)) m)"
  shows "list_all (\<lambda>e. \<not> is_step_pause e) (events_of (write (Scalar s) m delay replace) w)
         \<and> forget_ready (write (Scalar s) m delay replace w) = forget_ready (write_sync s delay replace w)
         \<and> (\<exists>steps. events_of (write (Scalar s) m delay replace) w
                         = events_of (write (Scalar []) m delay replace) w @ steps
                     \<and> after_ready steps)"
proof -
  from assms have ready: "await_event (writer w) m = Step_ready"
    by (simp add: await_event_def)
  have "adds (\<lambda>e. \<not> is_step_pause e) (write (Scalar s) m delay replace w) (lead_delay delay w)"
    by (rule adds_write) (auto simp: ready elim: is_page_event.elims)
  from new_events_adds [OF this, of w "lead_events delay"]
  have quiet: "list_all (\<lambda>e. \<not> is_step_pause e) (events_of (write (Scalar s) m delay replace) w)"
    by (auto simp: events_of_def lead_events_def)
  have sync: "forget_ready (write (Scalar s) m delay replace w)
      = forget_ready (write_sync s delay replace w)"
    unfolding "write.simps" write_sync_def
  proof (rule similar_and_then [where W = "writer w"])
    show "forget_ready (getTargetElement (lead_delay delay w))
        = forget_ready (getTargetElement (lead_delay delay w))" by simp
    show "writer (world_of (getTargetElement (lead_delay delay w))) = writer w" by simp
  next
    fix target and w1 v1 :: world
    assume sim: "forget_ready_world w1 = forget_ready_world v1" and wr: "writer w1 = writer w"
    show "forget_ready (and_then (if replace then clear_innerHTML target w1 else Returned () w1)
            (\<lambda>u w2. write_chars s m target w2))
        = forget_ready (and_then (if replace then clear_innerHTML target v1 else Returned () v1)
            (\<lambda>u w2. write_chars_sync s target w2))"
    proof (rule similar_and_then [where W = "writer w"])
      show "forget_ready (if replace then clear_innerHTML target w1 else Returned () w1)
          = forget_ready (if replace then clear_innerHTML target v1 else Returned () v1)"
        using sim by (auto simp: clear_innerHTML_def intro: similar_change_children)
      show "writer (world_of (if replace then clear_innerHTML target w1 else Returned () w1)) = writer w"
        using wr by (simp add: clear_innerHTML_def)
    next
      fix u and w2 v2 :: world
      assume "forget_ready_world w2 = forget_ready_world v2" "writer w2 = writer w"
      with assms show "forget_ready (write_chars s m target w2)
          = forget_ready (write_chars_sync s target v2)"
        by (intro write_chars_sync_similar) simp_all
    qed
  qed
  have "adds (\<lambda>e. True) (write (Scalar []) m delay replace w) (lead_delay delay w)"
    by (rule adds_write) simp_all
  then obtain pre where pre: "trace (world_of (write (Scalar []) m delay replace w)) = trace w @ pre"
    by (auto simp: adds_def simp del: "write.simps")
  have "\<exists>steps. trace (world_of (write (Scalar s) m delay replace w))
            = trace (world_of (write (Scalar []) m delay replace w)) @ steps \<and> after_ready steps"
  proof (cases "getTargetElement (lead_delay delay w)")
    case (Thrown e w1)
    then show ?thesis by simp
  next
    case (Returned target w1)
    have "writer w1 = writer (world_of (getTargetElement (lead_delay delay w)))"
      using Returned by simp
    then have wr1: "writer w1 = writer w" by simp
    show ?thesis
    proof (cases "if replace then clear_innerHTML target w1 else Returned () w1")
      case (Thrown e w2)
      with Returned show ?thesis by simp
    next
      case inner: (Returned u w2)
      have "writer w2 = writer (world_of (if replace then clear_innerHTML target w1 else Returned () w1))"
        using inner by simp
      with wr1 have "writer w2 = writer w" by (simp add: clear_innerHTML_def split: if_splits)
      with assms have "equals_zero (multiply (animationDelay (writer w2)) m)" by simp
      from write_chars_after_ready [OF this, of s target] Returned inner show ?thesis by simp
    qed
  qed
  then obtain steps where
    "trace (world_of (write (Scalar s) m delay replace w)) = trace w @ pre @ steps" "after_ready steps"
    using pre by auto
  with pre have "\<exists>steps. events_of (write (Scalar s) m delay replace) w
                         = events_of (write (Scalar []) m delay replace) w @ steps
                     \<and> after_ready steps"
    by (auto simp: events_of_def simp del: "write.simps")
  with quiet sync show ?thesis by blast
qed

theorem write_zero_product_sets_no_timer_witness:
  "equals_zero (multiply (animationDelay (writer (setAnimationDelay (Finite True 5 0)
       (new_TextWriter ''box'' False box_page)))) zero)
   \<and> list_all (\<lambda>e. \<not> is_step_pause e)
       (events_of (write (Scalar [104, 105]) zero zero False)
          (setAnimationDelay (Finite True 5 0) (new_TextWriter ''box'' False box_page)))
   \<and> forget_ready (write (Scalar [104, 105]) zero zero False
         (setAnimationDelay (Finite True 5 0) (new_TextWriter ''box'' False box_page)))
       = forget_ready (write_sync [104, 105] zero False
         (setAnimationDelay (Finite True 5 0) (new_TextWriter ''box'' False box_page)))
   \<and> (\<exists>steps. events_of (write (Scalar [104, 105]) zero zero False)
          (setAnimationDelay (Finite True 5 0) (new_TextWriter ''box'' False box_page))
        = events_of (write (Scalar []) zero zero False)
          (setAnimationDelay (Finite True 5 0) (new_TextWriter ''box'' False box_page)) @ steps
        \<and> after_ready steps)
   \<and> events_of (write (Scalar [104, 105]) zero zero False)
          (setAnimationDelay (Finite True 5 0) (new_TextWriter ''box'' False box_page))
       = [Step_ready, Inserted_html [0, 0, 0] [span_of 104],
          Step_ready, Inserted_html [0, 0, 0] [span_of 105]]
   \<and> events_of (write (Scalar []) zero zero False)
          (setAnimationDelay (Finite True 5 0) (new_TextWriter ''box'' False box_page)) = []"
proof -
  let ?w = "setAnimationDelay (Finite True 5 0) (new_TextWriter ''box'' False box_page)"
  have z: "equals_zero (multiply (animationDelay (writer ?w)) zero)"
    by (simp add: setAnimationDelay_def zero_def round_binary64_def round_half_even_def Let_def)
  have full: "events_of (write (Scalar [104, 105]) zero zero False) ?w
       = [Step_ready, Inserted_html [0, 0, 0] [span_of 104],
          Step_ready, Inserted_html [0, 0, 0] [span_of 105]]"
    by (simp add: events_of_def new_TextWriter_def setDestination_def getElementById_def box_page_def
      getTargetElement_def setAnimationDelay_def sleepAnimationDelay_def writeHtmlChar_def
      insertAdjacentHTML_def change_children_def scrollToText_def
      zero_def round_binary64_def round_half_even_def Let_def record_event_def
      binary_digits.simps lead_delay_def)
  have none: "events_of (write (Scalar []) zero zero False) ?w = []"
    by (simp add: events_of_def new_TextWriter_def setDestination_def getElementById_def box_page_def
      getTargetElement_def setAnimationDelay_def zero_def lead_delay_def)
  from write_zero_product_sets_no_timer [OF z, of "[104, 105]" zero False]
  have "list_all (\<lambda>e. \<not> is_step_pause e) (events_of (write (Scalar [104, 105]) zero zero False) ?w)"
    and "forget_ready (write (Scalar [104, 105]) zero zero False ?w)
         = forget_ready (write_sync [104, 105] zero False ?w)"
    and "\<exists>steps. events_of (write (Scalar [104, 105]) zero zero False) ?w
           = events_of (write (Scalar []) zero zero False) ?w @ steps \<and> after_ready steps"
    by blast+
  with z full none show ?thesis by (simp only: simp_thms)
qed

theorem write_zero_product_still_awaits:
  "equals_zero (multiply (animationDelay (writer (setAnimationDelay zero
       (new_TextWriter ''box'' False box_page)))) one)
   \<and> events_of (write (Scalar [97]) one zero False)
        (setAnimationDelay zero (new_TextWriter ''box'' False box_page))
       = [Step_ready, Inserted_html [0, 0, 0] [span_of 97]]"
  by (simp add: events_of_def new_TextWriter_def setDestination_def getElementById_def box_page_def
      getTargetElement_def setAnimationDelay_def sleepAnimationDelay_def writeHtmlChar_def
      insertAdjacentHTML_def change_children_def scrollToText_def one_def
      zero_def round_binary64_def round_half_even_def Let_def record_event_def
      binary_digits.simps lead_delay_def)

subsection \<open>The target of \<^verbatim>\<open>writeJson\<close>\<close>

text \<open>With the defaults the pause of a step is \<^verbatim>\<open>100 * 0.4\<close>, which is 40.\<close>

lemma forty: "multiply hundred two_fifths = Finite False 5629499534213120 (- 47)"
  by (simp add: hundred_def two_fifths_def round_binary64_def round_half_even_def Let_def
      binary_digits.simps)

lemmas writeJson_steps =
  writeJson_def parse_literal_def new_TextWriter_def setDestination_def
  getElementById_def insertAdjacentHTML_def insertAdjacentText_def
  change_children_def element_querySelector_def writeChar_def scrollToText_def
  sleepAnimationDelay_def forty record_event_def

text \<open>
  On a resolved container \<^verbatim>\<open>writeJson\<close> of a value, or of a text that parses,
  returns. It appends the new \<^verbatim>\<open><pre>\<close>, finds its target among the children of the
  container and below, and appends the characters of the serialisation with
  indentation 2 there, in order, each as a text node of its own.
\<close>

lemma writeChar_run:
  assumes q: "node_at (document w) q = Some (Element t d k)" and res: "resolved w"
  shows "\<exists>w'. writeChar c (Some q) w = Returned () w' \<and> writer w' = writer w
           \<and> trace w' = trace w @ Inserted_text q [c] # scroll_events (writer w)
           \<and> node_at (document w') q = Some (Element t d (k @ [TextNode [c]]))
           \<and> keeps (document w) (document w')"
proof -
  from change_children_run [OF q, of "\<lambda>kids. kids @ [TextNode [c]]" "\<lambda>p. Inserted_text p [c]"]
  obtain doc' where m: "modify_at q (\<lambda>kids. kids @ [TextNode [c]]) (document w) = Some doc'"
    and at: "node_at doc' q = Some (Element t d (k @ [TextNode [c]]))"
    and ins: "insertAdjacentText (Some q) [c] w =
              Returned () (record_event (Inserted_text q [c]) (w\<lparr>document := doc'\<rparr>))"
    unfolding insertAdjacentText_def by blast
  let ?w1 = "record_event (Inserted_text q [c]) (w\<lparr>document := doc'\<rparr>)"
  from modify_at_append_keeps [OF m] have k: "keeps (document w) doc'" .
  with res have "resolved ?w1" by (auto intro: resolved_keeps)
  from scrollToText_run [OF this] obtain w' where
    "scrollToText ?w1 = Returned () w'" "writer w' = writer ?w1" "document w' = document ?w1"
    "trace w' = trace ?w1 @ scroll_events (writer ?w1)"
    by blast
  with ins at k show ?thesis by (simp add: writeChar_def)
qed

lemma writeJson_chars_run:
  assumes "node_at (document w) q = Some (Element t d k)" and "resolved w"
  shows "\<exists>w'. writeJson_chars s m (Some q) w = Returned () w' \<and> writer w' = writer w
           \<and> trace w' = trace w @ concat (map (\<lambda>c. await_event (writer w) m
                 # Inserted_text q [c] # scroll_events (writer w)) s)
           \<and> node_at (document w') q = Some (Element t d (k @ map (\<lambda>c. TextNode [c]) s))
           \<and> keeps (document w) (document w')"
  using assms
proof (induction s arbitrary: w k)
  case Nil
  then show ?case by simp
next
  case (Cons c cs)
  let ?wa = "await_step (sleepAnimationDelay m w) w"
  from Cons.prems have "node_at (document ?wa) q = Some (Element t d k)" "resolved ?wa"
    by simp_all
  from writeChar_run [OF this, of c] obtain w1 where
    w1: "writeChar c (Some q) ?wa = Returned () w1" "writer w1 = writer w"
    "trace w1 = trace w @ await_event (writer w) m # Inserted_text q [c] # scroll_events (writer w)"
    "node_at (document w1) q = Some (Element t d (k @ [TextNode [c]]))"
    "keeps (document w) (document w1)"
    by auto
  from Cons.prems(2) w1(2,5) have "resolved w1" by (rule resolved_keeps)
  from Cons.IH [OF w1(4) this] obtain w' where
    w': "writeJson_chars cs m (Some q) w1 = Returned () w'" "writer w' = writer w1"
    "trace w' = trace w1 @ concat (map (\<lambda>c. await_event (writer w1) m
        # Inserted_text q [c] # scroll_events (writer w1)) cs)"
    "node_at (document w') q = Some (Element t d ((k @ [TextNode [c]]) @ map (\<lambda>c. TextNode [c]) cs))"
    "keeps (document w1) (document w')"
    by blast
  from w1 w' keeps_trans [OF w1(5) w'(5)] show ?case
    by simp
qed

lemma writeJson_run:
  assumes res: "resolved w" and p: "textDestinationContainer (writer w) = Some p"
    and k0: "children_at (document w) p = Some k0"
    and v: "(case text of Textual s \<Rightarrow> parse s | Structured v \<Rightarrow> Some v) = Some v"
  shows "\<exists>q d k w'.
           select_first None ''pre'' (k0 @ [Element ''pre'' [] []]) = Some q
           \<and> writeJson parse stringify text m w = Returned () w'
           \<and> events_of (writeJson parse stringify text m) w
               = Inserted_html p [Element ''pre'' [] []]
                 # concat (map (\<lambda>c. await_event (writer w) m # Inserted_text (p @ q) [c]
                                     # scroll_events (writer w)) (stringify v 2))
           \<and> node_at (document w') (p @ q)
               = Some (Element ''pre'' d (k @ map (\<lambda>c. TextNode [c]) (stringify v 2)))"
proof -
  from k0 obtain tg c where n: "node_at (document w) p = Some (Element tg c k0)"
    by (auto simp: children_at_def split: option.splits node.splits)
  from change_children_run [OF n, of "\<lambda>ks. ks @ [Element ''pre'' [] []]"
      "\<lambda>p. Inserted_html p [Element ''pre'' [] []]"]
  obtain doc1 where m: "modify_at p (\<lambda>ks. ks @ [Element ''pre'' [] []]) (document w) = Some doc1"
    and at: "node_at doc1 p = Some (Element tg c (k0 @ [Element ''pre'' [] []]))"
    and ins: "insertAdjacentHTML (Some p) [Element ''pre'' [] []] w =
              Returned () (record_event (Inserted_html p [Element ''pre'' [] []]) (w\<lparr>document := doc1\<rparr>))"
    unfolding insertAdjacentHTML_def by blast
  let ?w1 = "record_event (Inserted_html p [Element ''pre'' [] []]) (w\<lparr>document := doc1\<rparr>)"
  from modify_at_append_keeps [OF m] res have r1: "resolved ?w1"
    by (auto intro: resolved_keeps)
  from select_first_last_child [of "''pre''" k0 "[]" "[]"] obtain q where
    q: "select_first None ''pre'' (k0 @ [Element ''pre'' [] []]) = Some q" by blast
  from select_first_sound [OF q] obtain d k where
    sub: "node_at (k0 @ [Element ''pre'' [] []]) q = Some (Element ''pre'' d k)" by auto
  then obtain i rest where qi: "q = i # rest" by (cases q) auto
  from node_at_append [OF at, of i rest] sub qi
  have atq: "node_at (document ?w1) (p @ q) = Some (Element ''pre'' d k)" by simp
  from at q p have sel: "element_querySelector (textDestinationContainer (writer ?w1)) ''pre'' ?w1
      = Returned (Some (p @ q)) ?w1"
    by (simp add: element_querySelector_def)
  from writeJson_chars_run [OF atq r1, of "stringify v 2" m] obtain w' where
    w': "writeJson_chars (stringify v 2) m (Some (p @ q)) ?w1 = Returned () w'"
    "trace w' = trace ?w1 @ concat (map (\<lambda>c. await_event (writer ?w1) m
        # Inserted_text (p @ q) [c] # scroll_events (writer ?w1)) (stringify v 2))"
    "node_at (document w') (p @ q)
      = Some (Element ''pre'' d (k @ map (\<lambda>c. TextNode [c]) (stringify v 2)))"
    by blast
  from v p ins sel w'(1) have run: "writeJson parse stringify text m w = Returned () w'"
    by (simp add: writeJson_def)
  with w'(2) have "events_of (writeJson parse stringify text m) w
      = Inserted_html p [Element ''pre'' [] []]
        # concat (map (\<lambda>c. await_event (writer w) m # Inserted_text (p @ q) [c]
                            # scroll_events (writer w)) (stringify v 2))"
    by (simp add: events_of_def)
  with q run w'(3) show ?thesis by blast
qed

text \<open>
  C6. \<^verbatim>\<open>writeJson\<close> appends a new \<^verbatim>\<open><pre></pre>\<close> to the container and then takes as
  its target the first \<^verbatim>\<open>pre:last-of-type\<close> below the container, which need not be
  the new element. A writer made for the section \<^verbatim>\<open>log\<close> writes \<^verbatim>\<open>null\<close> there, is
  then sent to the box around the section and writes \<^verbatim>\<open>true\<close>: the second call
  appends its \<^verbatim>\<open><pre>\<close> to the box, but its characters go, as plain text nodes, into
  the \<^verbatim>\<open><pre>\<close> of the first call, and the new element stays empty.
\<close>

theorem writeJson_writes_into_older_pre:
  "document (world_of
     (writeJson parse_literal stringify_literal (Textual [116, 114, 117, 101]) two_fifths
        (setDestination ''box'' (world_of
           (writeJson parse_literal stringify_literal (Textual [110, 117, 108, 108]) two_fifths
              (new_TextWriter ''log'' False log_page))))))
   = [Element ''html'' []
        [Element ''body'' []
           [Element ''div'' ''box''
              [Element ''div'' ''log''
                 [Element ''pre'' []
                    [TextNode [110], TextNode [117], TextNode [108], TextNode [108],
                     TextNode [116], TextNode [114], TextNode [117], TextNode [101]]],
               Element ''pre'' [] []]]]]"
  by (simp add: writeJson_steps log_page_def)

end
